theory Spec2Isabelle
  imports Main
begin

section \<open>The host event loop: clock, one-shot timers, callback log\<close>

text \<open>
  The script runs on the single-threaded event queue of a browser. The part of the host that
  the loader talks to is modelled explicitly: a millisecond clock, the queue of pending
  one-shot timers created by \<open>setTimeout\<close>, the console, and a log of every invocation of
  a user callback together with the time of the invocation. The clock is ideal: a timer runs
  exactly when it is due.

  The host keeps the delay of a timer in a signed 32-bit integer, so \<open>setTimeout\<close> below
  is the host's \<open>setTimeout\<close> for delays below \<open>2 ^ 31\<close> milliseconds only; a larger
  delay makes the host's timer run at once. The loader passes \<open>quietPeriod\<close> and
  \<open>maxWaitTime\<close> to it unchecked, and the statements below that depend on when a timer
  is due assume both to be below \<open>2 ^ 31\<close>.

  A JavaScript function value handed to \<open>start\<close> is opaque to the loader; it is represented
  by a number naming it, and calling it appends an entry to the log. A callback does not call
  back into the loader (the one the script registers calls \<open>launcher.fire\<close>).
\<close>

type_synonym callback = nat

text \<open>The bodies of the two arrow functions passed to \<open>setTimeout\<close> by the loader.\<close>

datatype timer_task = QuietElapsed | MaxWaitElapsed

record timer =
  tid :: nat
  due :: nat
  task :: timer_task

datatype diagnostic = ConsoleWarn string | ConsoleError string | ConsoleLog string

record env =
  now :: nat
  timers :: "timer list"
  next_tid :: nat
  calls :: "(nat \<times> callback) list"
  console :: "diagnostic list"

definition setTimeout :: "timer_task \<Rightarrow> nat \<Rightarrow> env \<Rightarrow> nat \<times> env" where
  "setTimeout k delay e =
     (next_tid e,
      e\<lparr>timers := timers e @ [\<lparr>tid = next_tid e, due = now e + delay, task = k\<rparr>],
        next_tid := Suc (next_tid e)\<rparr>)"

definition clearTimeout :: "nat \<Rightarrow> env \<Rightarrow> env" where
  "clearTimeout h e = e\<lparr>timers := filter (\<lambda>x. tid x \<noteq> h) (timers e)\<rparr>"

definition invoke :: "callback \<Rightarrow> env \<Rightarrow> env" where
  "invoke c e = e\<lparr>calls := calls e @ [(now e, c)]\<rparr>"

definition emit :: "diagnostic \<Rightarrow> env \<Rightarrow> env" where
  "emit d e = e\<lparr>console := console e @ [d]\<rparr>"

section \<open>DynamicContentLoader\<close>

text \<open>
  The fields of the object, as the constructor declares them. \<open>observer\<close> is \<open>None\<close> for
  \<open>null\<close> and \<open>Some c\<close> for a MutationObserver, where \<open>c\<close> tells whether it is attached to
  a target (\<open>observe\<close> was called and \<open>disconnect\<close> was not). A timer field is \<open>None\<close> for
  \<open>null\<close> and \<open>Some h\<close> for the handle \<open>h\<close> returned by \<open>setTimeout\<close>; handles are positive
  integers in a browser, so the source's truthiness test \<open>if (this.quietTimer)\<close> is the test
  for \<open>Some\<close>.
\<close>

record loader =
  quietPeriod :: nat
  maxWaitTime :: nat
  targetSelector :: "string option"
  observer :: "bool option"
  quietTimer :: "nat option"
  timeoutTimer :: "nat option"
  isLoading :: bool
  isComplete :: bool
  onComplete :: "callback option"
  onTimeout :: "callback option"

text \<open>
  What \<open>start\<close> asks of the document: whether \<open>document.body\<close> exists and whether
  \<open>document.querySelector\<close> finds an element for a selector.
\<close>

record dom_query =
  body_present :: bool
  selector_hits :: "string \<Rightarrow> bool"

type_synonym state = "loader \<times> env"

text \<open>The constructor: the defaults, overridden by the options that are given.\<close>

definition DynamicContentLoader :: "nat option \<Rightarrow> nat option \<Rightarrow> string option \<Rightarrow> loader" where
  "DynamicContentLoader q m sel =
     \<lparr>quietPeriod = (case q of None \<Rightarrow> 500 | Some v \<Rightarrow> v),
      maxWaitTime = (case m of None \<Rightarrow> 10000 | Some v \<Rightarrow> v),
      targetSelector = sel,
      observer = None, quietTimer = None, timeoutTimer = None,
      isLoading = False, isComplete = False,
      onComplete = None, onTimeout = None\<rparr>"

text \<open>
  \<open>this.config.targetSelector ? document.querySelector(...) : document.body\<close>, followed by
  \<open>!target\<close>: an empty selector string is falsy, like \<open>null\<close>.
\<close>

definition target_found :: "loader \<Rightarrow> dom_query \<Rightarrow> bool" where
  "target_found l d =
     (case targetSelector l of
        None \<Rightarrow> body_present d
      | Some s \<Rightarrow> if s = [] then body_present d else selector_hits d s)"

fun cleanup :: "state \<Rightarrow> state" where
  "cleanup (l, e) =
     (let l1 = (case observer l of None \<Rightarrow> l | Some c \<Rightarrow> l\<lparr>observer := None\<rparr>);
          (l2, e2) = (case quietTimer l1 of
                        None \<Rightarrow> (l1, e)
                      | Some h \<Rightarrow> (l1\<lparr>quietTimer := None\<rparr>, clearTimeout h e))
      in (case timeoutTimer l2 of
            None \<Rightarrow> (l2, e2)
          | Some h \<Rightarrow> (l2\<lparr>timeoutTimer := None\<rparr>, clearTimeout h e2)))"

fun handleComplete :: "state \<Rightarrow> state" where
  "handleComplete (l, e) =
     (if isComplete l then (l, e)
      else
        let (l1, e1) = cleanup (l\<lparr>isComplete := True, isLoading := False\<rparr>, e);
            e2 = (case onComplete l1 of None \<Rightarrow> e1 | Some c \<Rightarrow> invoke c e1)
        in (l1, emit (ConsoleLog ''DynamicContentLoader: Content loading complete'') e2))"

fun handleTimeout :: "state \<Rightarrow> state" where
  "handleTimeout (l, e) =
     (if isComplete l then (l, e)
      else
        let (l1, e1) =
              cleanup (l, emit (ConsoleWarn ''DynamicContentLoader: Maximum wait time reached'') e)
        in (case onTimeout l1 of
              Some c \<Rightarrow> (l1, invoke c e1)
            | None \<Rightarrow> (case onComplete l1 of
                         Some c \<Rightarrow> (l1, invoke c e1)
                       | None \<Rightarrow> (l1, e1))))"

fun resetQuietTimer :: "state \<Rightarrow> state" where
  "resetQuietTimer (l, e) =
     (let e1 = (case quietTimer l of None \<Rightarrow> e | Some h \<Rightarrow> clearTimeout h e);
          (h', e2) = setTimeout QuietElapsed (quietPeriod l) e1
      in (l\<lparr>quietTimer := Some h'\<rparr>, e2))"

fun handleMutation :: "state \<Rightarrow> state" where
  "handleMutation (l, e) = (if isComplete l then (l, e) else resetQuietTimer (l, e))"

fun start :: "callback option \<Rightarrow> callback option \<Rightarrow> dom_query \<Rightarrow> state \<Rightarrow> state" where
  "start onC onT d (l, e) =
     (if isLoading l
      then (l, emit (ConsoleWarn ''DynamicContentLoader is already running'') e)
      else
        let l1 = l\<lparr>isLoading := True, isComplete := False, onComplete := onC, onTimeout := onT\<rparr>;
            (h, e1) = setTimeout MaxWaitElapsed (maxWaitTime l1) e;
            l2 = l1\<lparr>timeoutTimer := Some h, observer := Some False\<rparr>
        in if \<not> target_found l2 d
           then handleComplete (l2, emit (ConsoleError ''Target element not found'') e1)
           else resetQuietTimer (l2\<lparr>observer := Some True\<rparr>, e1))"

fun stop :: "state \<Rightarrow> state" where
  "stop (l, e) =
     (if \<not> isLoading l then (l, e)
      else
        let (l1, e1) = cleanup (l, e)
        in (l1\<lparr>isLoading := False, isComplete := False\<rparr>,
            emit (ConsoleLog ''DynamicContentLoader stopped'') e1))"

definition isRunning :: "loader \<Rightarrow> bool" where
  "isRunning l = isLoading l"

definition hasCompleted :: "loader \<Rightarrow> bool" where
  "hasCompleted l = isComplete l"

text \<open>
  \<open>reconfigure\<close> merges the keys that \<open>newOptions\<close> has over the current configuration;
  a key that is absent is \<open>None\<close> here.
\<close>

record options =
  opt_quietPeriod :: "nat option"
  opt_maxWaitTime :: "nat option"
  opt_targetSelector :: "string option option"

fun reconfigure :: "options \<Rightarrow> state \<Rightarrow> state" where
  "reconfigure newOptions (l, e) =
     (if isLoading l
      then (l, emit (ConsoleError ''Cannot reconfigure while loader is running'') e)
      else (l\<lparr>quietPeriod := (case opt_quietPeriod newOptions of None \<Rightarrow> quietPeriod l | Some v \<Rightarrow> v),
              maxWaitTime := (case opt_maxWaitTime newOptions of None \<Rightarrow> maxWaitTime l | Some v \<Rightarrow> v),
              targetSelector :=
                (case opt_targetSelector newOptions of None \<Rightarrow> targetSelector l | Some v \<Rightarrow> v)\<rparr>,
            e))"

section \<open>Running the event loop\<close>

text \<open>
  Timers that are due run in the order of their due time, and in the order of their creation
  where two are due together. A timer is removed from the queue when it runs. A batch of
  mutations reaches \<open>handleMutation\<close> only while the observer is attached.
\<close>

definition before :: "timer \<Rightarrow> timer \<Rightarrow> bool" where
  "before a b = (due a < due b \<or> (due a = due b \<and> tid a \<le> tid b))"

fun earliest :: "timer list \<Rightarrow> timer option" where
  "earliest [] = None"
| "earliest (x # xs) =
     (case earliest xs of
        None \<Rightarrow> Some x
      | Some y \<Rightarrow> if before x y then Some x else Some y)"

definition due_timers :: "nat \<Rightarrow> env \<Rightarrow> timer list" where
  "due_timers t e = filter (\<lambda>x. due x \<le> t) (timers e)"

fun run_timer :: "timer \<Rightarrow> state \<Rightarrow> state" where
  "run_timer x (l, e) =
     (let e1 = e\<lparr>now := max (now e) (due x), timers := filter (\<lambda>y. tid y \<noteq> tid x) (timers e)\<rparr>
      in (case task x of
            QuietElapsed \<Rightarrow> handleComplete (l, e1)
          | MaxWaitElapsed \<Rightarrow> handleTimeout (l, e1)))"

lemma earliest_mem: "earliest xs = Some x \<Longrightarrow> x \<in> set xs"
  by (induction xs arbitrary: x) (auto split: option.splits if_splits)

lemma clearTimeout_length: "length (timers (clearTimeout h e)) \<le> length (timers e)"
  by (simp add: clearTimeout_def)

lemma cleanup_length: "length (timers (snd (cleanup (l, e)))) \<le> length (timers e)"
  by (auto simp: Let_def clearTimeout_def split: option.splits
           intro: order_trans [OF length_filter_le length_filter_le])

lemma handleComplete_length: "length (timers (snd (handleComplete (l, e)))) \<le> length (timers e)"
  using cleanup_length [of "l\<lparr>isComplete := True, isLoading := False\<rparr>" e]
  by (auto simp: Let_def invoke_def emit_def split: option.splits prod.splits)

lemma handleTimeout_length: "length (timers (snd (handleTimeout (l, e)))) \<le> length (timers e)"
  using cleanup_length
          [of l "emit (ConsoleWarn ''DynamicContentLoader: Maximum wait time reached'') e"]
  by (auto simp: Let_def invoke_def emit_def split: option.splits prod.splits)

lemma run_timer_length:
  assumes "x \<in> set (timers e)"
  shows "length (timers (snd (run_timer x (l, e)))) < length (timers e)"
proof -
  let ?e1 = "e\<lparr>now := max (now e) (due x), timers := filter (\<lambda>y. tid y \<noteq> tid x) (timers e)\<rparr>"
  have less: "length (timers ?e1) < length (timers e)"
    using assms by (auto intro!: length_filter_less [of x])
  show ?thesis
  proof (cases "task x")
    case QuietElapsed
    then show ?thesis
      using handleComplete_length [of l ?e1] less by (simp add: Let_def del: handleComplete.simps)
  next
    case MaxWaitElapsed
    then show ?thesis
      using handleTimeout_length [of l ?e1] less by (simp add: Let_def del: handleTimeout.simps)
  qed
qed

function advance_to :: "nat \<Rightarrow> state \<Rightarrow> state" where
  "advance_to t (l, e) =
     (case earliest (due_timers t e) of
        None \<Rightarrow> (l, e\<lparr>now := max (now e) t\<rparr>)
      | Some x \<Rightarrow> advance_to t (run_timer x (l, e)))"
  by pat_completeness auto
termination
proof (relation "measure (\<lambda>(t, s). length (timers (snd s)))")
  show "wf (measure (\<lambda>(t, s). length (timers (snd s))))" by simp
next
  fix t l e x
  assume "earliest (due_timers t e) = Some x"
  then have "x \<in> set (timers e)"
    using earliest_mem [of "due_timers t e" x] by (simp add: due_timers_def)
  then show "((t, run_timer x (l, e)), (t, l, e)) \<in> measure (\<lambda>(t, s). length (timers (snd s)))"
    using run_timer_length [of x e l] by simp
qed

declare advance_to.simps [simp del]

fun mutation :: "state \<Rightarrow> state" where
  "mutation (l, e) = (if observer l = Some True then handleMutation (l, e) else (l, e))"

fun run :: "nat list \<Rightarrow> state \<Rightarrow> state" where
  "run [] s = s"
| "run (m # ms) s = run ms (mutation (advance_to m s))"


section \<open>Runs of the detector\<close>

text \<open>
  A run is a list of the times at which mutation batches are delivered after \<open>start\<close>, in
  the order of delivery. \<open>spaced q t ms\<close> says that the first event comes less than \<open>q\<close>
  after time \<open>t\<close> and every later one less than \<open>q\<close> after its predecessor;
  \<open>last_event t ms\<close> is the time of the last event, or \<open>t\<close> when there is none.
\<close>

fun spaced :: "nat \<Rightarrow> nat \<Rightarrow> nat list \<Rightarrow> bool" where
  "spaced q t [] = True"
| "spaced q t (m # ms) = (t \<le> m \<and> m < t + q \<and> spaced q m ms)"

fun last_event :: "nat \<Rightarrow> nat list \<Rightarrow> nat" where
  "last_event t [] = t"
| "last_event t (m # ms) = last_event m ms"

definition observing ::
  "nat \<Rightarrow> nat \<Rightarrow> nat \<Rightarrow> (nat \<times> callback) list \<Rightarrow> callback option \<Rightarrow> callback option \<Rightarrow> state \<Rightarrow> bool" where
  "observing q D t cs oc ot s =
     (case s of (l, e) \<Rightarrow>
        quietPeriod l = q \<and> onComplete l = oc \<and> onTimeout l = ot \<and>
        isLoading l \<and> \<not> isComplete l \<and> observer l = Some True \<and>
        now e = t \<and> t \<le> D \<and> calls e = cs \<and>
        (\<exists>a b. a \<noteq> b \<and> a < next_tid e \<and> b < next_tid e \<and>
           timeoutTimer l = Some a \<and> quietTimer l = Some b \<and>
           timers e = [\<lparr>tid = a, due = D, task = MaxWaitElapsed\<rparr>,
                       \<lparr>tid = b, due = t + q, task = QuietElapsed\<rparr>]))"

text \<open>
  \<open>observing q D t cs oc ot\<close> describes the loader between two events: it is loading, its
  observer is attached, the clock shows \<open>t\<close>, and the queue holds exactly its two timers: the
  absolute timeout due at \<open>D\<close> and the quiet timer due at \<open>t + q\<close>. \<open>released\<close>
  describes it after it has let go of the observer and the timers.
\<close>

definition released :: "state \<Rightarrow> bool" where
  "released s = (case s of (l, e) \<Rightarrow> timers e = [] \<and> observer l = None)"

definition terminal :: "callback \<Rightarrow> callback option \<Rightarrow> callback" where
  "terminal c ot = (case ot of Some c' \<Rightarrow> c' | None \<Rightarrow> c)"

text \<open>
  Two coarser descriptions, for runs whose events come at any times. \<open>armed cs oc ot\<close>:
  the loader is loading with its observer attached, the queue holds exactly its timeout timer
  and its quiet timer, whenever they are due, and the log is still \<open>cs\<close>.
  \<open>settled cs oc ot\<close>: the loader has released the observer and the timers, and the log is
  \<open>cs\<close> or \<open>cs\<close> followed by one invocation of one of the two callbacks.
\<close>

definition armed ::
  "(nat \<times> callback) list \<Rightarrow> callback option \<Rightarrow> callback option \<Rightarrow> state \<Rightarrow> bool" where
  "armed cs oc ot s =
     (case s of (l, e) \<Rightarrow>
        onComplete l = oc \<and> onTimeout l = ot \<and>
        isLoading l \<and> \<not> isComplete l \<and> observer l = Some True \<and> calls e = cs \<and>
        (\<exists>a b D Q. a \<noteq> b \<and> a < next_tid e \<and> b < next_tid e \<and>
           timeoutTimer l = Some a \<and> quietTimer l = Some b \<and>
           timers e = [\<lparr>tid = a, due = D, task = MaxWaitElapsed\<rparr>,
                       \<lparr>tid = b, due = Q, task = QuietElapsed\<rparr>]))"

definition settled ::
  "(nat \<times> callback) list \<Rightarrow> callback option \<Rightarrow> callback option \<Rightarrow> state \<Rightarrow> bool" where
  "settled cs oc ot s =
     (released s \<and>
      (calls (snd s) = cs \<or>
       (\<exists>t x. calls (snd s) = cs @ [(t, x)] \<and> (oc = Some x \<or> ot = Some x))))"

definition fresh_env :: "nat \<Rightarrow> env" where
  "fresh_env t = \<lparr>now = t, timers = [], next_tid = 1, calls = [], console = []\<rparr>"

definition page_with_body :: dom_query where
  "page_with_body = \<lparr>body_present = True, selector_hits = (\<lambda>s. False)\<rparr>"

section \<open>Properties of the detector\<close>

lemma start_observing:
  assumes "\<not> isLoading l" "quietTimer l = None" "timers e = []" "target_found l d"
  shows "observing (quietPeriod l) (now e + maxWaitTime l) (now e) (calls e) oc ot
           (start oc ot d (l, e))"
  using assms
  by (simp add: observing_def target_found_def setTimeout_def clearTimeout_def Let_def
           split: option.splits)

lemma advance_idle:
  assumes "observing q D t cs oc ot (l, e)" "m < t + q" "m < D"
  shows "advance_to m (l, e) = (l, e\<lparr>now := max t m\<rparr>)"
  using assms by (auto simp: observing_def due_timers_def advance_to.simps)

lemma mutation_observing:
  assumes "observing q D t cs oc ot (l, e)" "t \<le> m" "m < t + q" "m < D"
  shows "observing q D m cs oc ot (mutation (advance_to m (l, e)))"
  using assms advance_idle [OF assms(1,3,4)]
  by (auto simp: observing_def setTimeout_def clearTimeout_def Let_def max_def)

lemma spaced_last: "spaced q t ms \<Longrightarrow> t \<le> last_event t ms"
  by (induction ms arbitrary: t) (auto intro: order_trans)

lemma run_observing:
  assumes "observing q D t cs oc ot s" "spaced q t ms" "last_event t ms < D"
  shows "observing q D (last_event t ms) cs oc ot (run ms s)"
  using assms
proof (induction ms arbitrary: t s)
  case Nil
  then show ?case by simp
next
  case (Cons m ms)
  obtain l e where s: "s = (l, e)" by (cases s)
  from Cons.prems have sp: "t \<le> m" "m < t + q" "spaced q m ms" by simp_all
  have "m \<le> last_event m ms" using sp(3) by (rule spaced_last)
  with Cons.prems(3) have mD: "m < D" by simp
  have "observing q D m cs oc ot (mutation (advance_to m (l, e)))"
    using Cons.prems(1) sp(1,2) mD unfolding s by (rule mutation_observing)
  then have "observing q D (last_event m ms) cs oc ot (run ms (mutation (advance_to m (l, e))))"
    using sp(3) Cons.prems(3) by (intro Cons.IH) simp_all
  then show ?case by (simp add: s)
qed

lemma advance_quiet:
  assumes "observing q D t cs (Some c) ot (l, e)" "t + q < D"
  shows "calls (snd (advance_to h (l, e))) = cs @ (if t + q \<le> h then [(t + q, c)] else [])"
proof (cases "t + q \<le> h")
  case False
  then show ?thesis using assms advance_idle [OF assms(1), of h] by (auto simp: observing_def)
next
  case True
  then show ?thesis using assms
    by (auto simp: observing_def due_timers_def before_def clearTimeout_def invoke_def emit_def
          Let_def max_def advance_to.simps)
qed

lemma advance_released:
  assumes "released (l, e)"
  shows "advance_to h (l, e) = (l, e\<lparr>now := max (now e) h\<rparr>)"
  using assms by (simp add: released_def due_timers_def advance_to.simps)

lemma released_run:
  assumes "released s"
  shows "released (run ms s) \<and> calls (snd (run ms s)) = calls (snd s)"
  using assms
proof (induction ms arbitrary: s)
  case Nil
  then show ?case by simp
next
  case (Cons m ms)
  obtain l e where s: "s = (l, e)" by (cases s)
  have step: "mutation (advance_to m (l, e)) = (l, e\<lparr>now := max (now e) m\<rparr>)"
    using Cons.prems advance_released [of l e m] by (simp add: s released_def)
  have "released (l, e\<lparr>now := max (now e) m\<rparr>)"
    using Cons.prems by (simp add: s released_def)
  from Cons.IH [OF this] show ?case by (simp add: s step)
qed

lemma advance_timeout:
  assumes "observing q D t cs (Some c) ot (l, e)" "D \<le> m" "m < t + q"
  shows "released (advance_to m (l, e)) \<and>
         calls (snd (advance_to m (l, e))) = cs @ [(D, terminal c ot)]"
  using assms
  by (auto simp: observing_def released_def terminal_def due_timers_def before_def
        clearTimeout_def invoke_def emit_def Let_def max_def advance_to.simps split: option.splits)

lemma run_timeout:
  assumes "observing q D t cs (Some c) ot s" "spaced q t ms" "D \<le> last_event t ms"
    and "ms \<noteq> [] \<or> t < D"
  shows "released (run ms s) \<and> calls (snd (run ms s)) = cs @ [(D, terminal c ot)]"
  using assms
proof (induction ms arbitrary: t s)
  case Nil
  then show ?case by simp
next
  case (Cons m ms)
  obtain l e where s: "s = (l, e)" by (cases s)
  from Cons.prems have sp: "t \<le> m" "m < t + q" "spaced q m ms" by simp_all
  show ?case
  proof (cases "m < D")
    case True
    have "observing q D m cs (Some c) ot (mutation (advance_to m (l, e)))"
      using Cons.prems(1) sp(1,2) True unfolding s by (rule mutation_observing)
    then show ?thesis
      using Cons.IH [of m "mutation (advance_to m (l, e))"] sp(3) Cons.prems(3) True
      by (simp add: s)
  next
    case False
    then have "D \<le> m" by simp
    from advance_timeout [OF Cons.prems(1) [unfolded s] this sp(2)]
    have rel: "released (advance_to m (l, e))"
      and cl: "calls (snd (advance_to m (l, e))) = cs @ [(D, terminal c ot)]" by simp_all
    obtain l' e' where a: "advance_to m (l, e) = (l', e')" by (cases "advance_to m (l, e)")
    have "mutation (l', e') = (l', e')" using rel by (simp add: a released_def)
    then show ?thesis using released_run [of "(l', e')" ms] rel cl by (simp add: s a)
  qed
qed

lemma start_armed:
  assumes "\<not> isLoading l" "quietTimer l = None" "timers e = []"
  shows "armed (calls e) oc ot (start oc ot d (l, e)) \<or>
         settled (calls e) oc ot (start oc ot d (l, e))"
  using assms
  by (cases oc)
     (auto simp: armed_def settled_def released_def setTimeout_def clearTimeout_def invoke_def
        emit_def Let_def split: option.splits)

lemma mutation_armed:
  assumes "armed cs oc ot s"
  shows "armed cs oc ot (mutation s)"
  using assms
  by (cases s) (auto simp: armed_def setTimeout_def clearTimeout_def Let_def)

lemma advance_armed:
  assumes "armed cs oc ot (l, e)"
  shows "armed cs oc ot (advance_to m (l, e)) \<or> settled cs oc ot (advance_to m (l, e))"
proof -
  from assms obtain a b D Q where
    t: "timers e = [\<lparr>tid = a, due = D, task = MaxWaitElapsed\<rparr>,
                    \<lparr>tid = b, due = Q, task = QuietElapsed\<rparr>]"
    and ab: "a \<noteq> b" and tt: "timeoutTimer l = Some a" and qt: "quietTimer l = Some b"
    by (auto simp: armed_def)
  show ?thesis
  proof (cases "D \<le> m \<or> Q \<le> m")
    case False
    then have "advance_to m (l, e) = (l, e\<lparr>now := max (now e) m\<rparr>)"
      using t by (simp add: advance_to.simps due_timers_def)
    with assms show ?thesis by (auto simp: armed_def)
  next
    case True
    then have "settled cs oc ot (advance_to m (l, e))"
      using assms t ab tt qt
      by (cases oc; cases ot)
         (auto simp: armed_def settled_def released_def due_timers_def before_def
            clearTimeout_def invoke_def emit_def Let_def advance_to.simps)
    then show ?thesis ..
  qed
qed

lemma settled_run:
  assumes "settled cs oc ot s"
  shows "settled cs oc ot (advance_to h (run ms s)) \<and>
         calls (snd (advance_to h (run ms s))) = calls (snd s)"
proof -
  from assms have rel: "released s" by (simp add: settled_def)
  from released_run [OF rel, of ms] have r: "released (run ms s)"
    and c: "calls (snd (run ms s)) = calls (snd s)" by simp_all
  obtain l' e' where s': "run ms s = (l', e')" by (cases "run ms s")
  from advance_released [of l' e' h] r c assms show ?thesis
    unfolding s' by (auto simp: settled_def released_def)
qed

lemma run_armed:
  assumes "armed cs oc ot s \<or> settled cs oc ot s"
  shows "armed cs oc ot (run ms s) \<or> settled cs oc ot (run ms s)"
  using assms
proof (induction ms arbitrary: s)
  case Nil
  then show ?case by simp
next
  case (Cons m ms)
  obtain l e where s: "s = (l, e)" by (cases s)
  have "armed cs oc ot (mutation (advance_to m s)) \<or> settled cs oc ot (mutation (advance_to m s))"
  proof (cases "armed cs oc ot s")
    case True
    from advance_armed [OF True [unfolded s], of m] show ?thesis
    proof
      assume "armed cs oc ot (advance_to m (l, e))"
      then show ?thesis unfolding s by (intro disjI1 mutation_armed)
    next
      assume st: "settled cs oc ot (advance_to m (l, e))"
      obtain l' e' where a: "advance_to m (l, e) = (l', e')" by (cases "advance_to m (l, e)")
      from st have "mutation (l', e') = (l', e')"
        unfolding a by (simp add: settled_def released_def)
      with st show ?thesis unfolding s a by simp
    qed
  next
    case False
    with Cons.prems have st: "settled cs oc ot s" by simp
    from settled_run [OF st, of m "[]"] have st': "settled cs oc ot (advance_to m s)" by simp
    obtain l' e' where a: "advance_to m s = (l', e')" by (cases "advance_to m s")
    from st' have "mutation (l', e') = (l', e')"
      unfolding a by (simp add: settled_def released_def)
    with st' show ?thesis unfolding a by simp
  qed
  from Cons.IH [OF this] show ?case by simp
qed

lemma reached:
  assumes "\<not> isLoading l" "quietTimer l = None" "timers e = []"
  shows "armed (calls e) oc ot (advance_to h (run ms (start oc ot d (l, e)))) \<or>
         settled (calls e) oc ot (advance_to h (run ms (start oc ot d (l, e))))"
proof -
  let ?r = "run ms (start oc ot d (l, e))"
  have r: "armed (calls e) oc ot ?r \<or> settled (calls e) oc ot ?r"
    using start_armed [OF assms] by (rule run_armed)
  obtain l' e' where s: "?r = (l', e')" by (cases ?r)
  from r show ?thesis
  proof
    assume "armed (calls e) oc ot ?r"
    from advance_armed [OF this [unfolded s], of h] show ?thesis unfolding s .
  next
    assume "settled (calls e) oc ot ?r"
    from settled_run [OF this, of h "[]"] show ?thesis by simp
  qed
qed

text \<open>
  C1 (debounce correctness). A loader that is not loading and holds no quiet timer, with
  \<open>quietPeriod\<close> and \<open>maxWaitTime\<close> below \<open>2 ^ 31\<close>, is started
  on a page where its target exists, with \<open>onComplete = c\<close>. Mutation batches then arrive
  at the times \<open>ms\<close>, each less than \<open>quietPeriod\<close> after the one before (the first
  less than \<open>quietPeriod\<close> after the start), and the last of them plus \<open>quietPeriod\<close>
  lies before the \<open>maxWaitTime\<close> deadline. Then up to any time \<open>h\<close> the callbacks invoked
  are: none while \<open>h\<close> is before the last event plus \<open>quietPeriod\<close>, and from then on
  exactly one, \<open>c\<close>, invoked at the last event plus \<open>quietPeriod\<close>.
\<close>

theorem debounce_correctness:
  assumes "\<not> isLoading l" "quietTimer l = None" "timers e = []" "target_found l d"
    and "spaced (quietPeriod l) (now e) ms"
    and "last_event (now e) ms + quietPeriod l < now e + maxWaitTime l"
    and "quietPeriod l < 2 ^ 31" "maxWaitTime l < 2 ^ 31"
  shows "calls (snd (advance_to h (run ms (start (Some c) ot d (l, e))))) =
         calls e @ (if last_event (now e) ms + quietPeriod l \<le> h
                    then [(last_event (now e) ms + quietPeriod l, c)] else [])"
proof -
  let ?q = "quietPeriod l" and ?D = "now e + maxWaitTime l"
  have "observing ?q ?D (now e) (calls e) (Some c) ot (start (Some c) ot d (l, e))"
    using assms(1-4) by (rule start_observing)
  then have "observing ?q ?D (last_event (now e) ms) (calls e) (Some c) ot
               (run ms (start (Some c) ot d (l, e)))"
    using assms(5,6) by (intro run_observing) simp_all
  then show ?thesis
    using assms(6) advance_quiet by (cases "run ms (start (Some c) ot d (l, e))") (simp del: start.simps)
qed

theorem debounce_correctness_witness:
  "calls (snd (advance_to 10000 (run [0, 100, 300]
      (start (Some 1) None page_with_body (DynamicContentLoader None None None, fresh_env 0)))))
     = [(800, 1)] \<and>
   calls (snd (advance_to 799 (run [0, 100, 300]
      (start (Some 1) None page_with_body (DynamicContentLoader None None None, fresh_env 0)))))
     = []"
  using debounce_correctness [of "DynamicContentLoader None None None" "fresh_env 0"
          page_with_body "[0, 100, 300]" 10000 1 None]
        debounce_correctness [of "DynamicContentLoader None None None" "fresh_env 0"
          page_with_body "[0, 100, 300]" 799 1 None]
  by (simp add: DynamicContentLoader_def fresh_env_def page_with_body_def target_found_def
           del: start.simps)

text \<open>
  C2 (timeout ceiling). The same loader, again with \<open>quietPeriod\<close> and \<open>maxWaitTime\<close>
  below \<open>2 ^ 31\<close>, is started with \<open>onComplete = c\<close> and an optional \<open>onTimeout\<close>. Mutation batches keep arriving less than \<open>quietPeriod\<close> apart until
  the \<open>maxWaitTime\<close> deadline is reached or passed (the list \<open>ms\<close> is any such prefix of
  the endless stream). Then, whatever happens afterwards and up to any time \<open>h\<close>, exactly one
  callback has been invoked, at the start time plus \<open>maxWaitTime\<close>: \<open>onTimeout\<close> when it
  was given, and \<open>c\<close> otherwise.
\<close>

theorem timeout_ceiling:
  assumes "\<not> isLoading l" "quietTimer l = None" "timers e = []" "target_found l d"
    and "spaced (quietPeriod l) (now e) ms" "ms \<noteq> []"
    and "now e + maxWaitTime l \<le> last_event (now e) ms"
    and "quietPeriod l < 2 ^ 31" "maxWaitTime l < 2 ^ 31"
  shows "calls (snd (advance_to h (run ms (start (Some c) ot d (l, e))))) =
         calls e @ [(now e + maxWaitTime l, terminal c ot)]"
proof -
  let ?s = "run ms (start (Some c) ot d (l, e))"
  have "observing (quietPeriod l) (now e + maxWaitTime l) (now e) (calls e) (Some c) ot
          (start (Some c) ot d (l, e))"
    using assms(1-4) by (rule start_observing)
  from run_timeout [OF this assms(5,7)] assms(6)
  have rel: "released ?s" and cl: "calls (snd ?s) = calls e @ [(now e + maxWaitTime l, terminal c ot)]"
    by simp_all
  obtain l' e' where s: "?s = (l', e')" by (cases ?s)
  show ?thesis using advance_released [of l' e' h] rel cl unfolding s by simp
qed

theorem timeout_ceiling_witness:
  "calls (snd (advance_to 5000 (run [400, 800, 1200, 1600, 2000, 2400]
      (start (Some 1) (Some 2) page_with_body
         (DynamicContentLoader None (Some 2000) None, fresh_env 0))))) = [(2000, 2)] \<and>
   calls (snd (advance_to 5000 (run [400, 800, 1200, 1600, 2000, 2400]
      (start (Some 1) None page_with_body
         (DynamicContentLoader None (Some 2000) None, fresh_env 0))))) = [(2000, 1)]"
  using timeout_ceiling [of "DynamicContentLoader None (Some 2000) None" "fresh_env 0"
          page_with_body "[400, 800, 1200, 1600, 2000, 2400]" 5000 1 "Some 2"]
        timeout_ceiling [of "DynamicContentLoader None (Some 2000) None" "fresh_env 0"
          page_with_body "[400, 800, 1200, 1600, 2000, 2400]" 5000 1 None]
  by (simp add: DynamicContentLoader_def fresh_env_def page_with_body_def target_found_def
           terminal_def del: start.simps)


section \<open>What the handlers leave behind\<close>

text \<open>
  Two sample histories, used below. In \<open>completed\<close> a loader with the default
  configuration sees mutations at 0, 100 and 300 ms and completes through the quiet timer at
  800 ms. In \<open>timed_out\<close> a loader with \<open>maxWaitTime = 1000\<close> sees mutations at 400 and
  800 ms, so that the absolute timeout runs at 1000 ms. Both are started with
  \<open>onComplete = 1\<close> and \<open>onTimeout = 2\<close>.
\<close>

definition completed :: state where
  "completed = advance_to 800 (run [0, 100, 300]
     (start (Some 1) (Some 2) page_with_body
        (DynamicContentLoader None None None, fresh_env 0)))"

definition timed_out :: state where
  "timed_out = advance_to 1000 (run [400, 800]
     (start (Some 1) (Some 2) page_with_body
        (DynamicContentLoader None (Some 1000) None, fresh_env 0)))"

definition first_start :: state where
  "first_start = start (Some 1) None page_with_body
                   (DynamicContentLoader None (Some 1000) None, fresh_env 0)"

lemmas evaluate =
  DynamicContentLoader_def fresh_env_def page_with_body_def target_found_def
  setTimeout_def clearTimeout_def invoke_def emit_def due_timers_def before_def Let_def
  advance_to.simps isRunning_def hasCompleted_def

lemma completed_eq:
  "completed =
     (\<lparr>quietPeriod = 500, maxWaitTime = 10000, targetSelector = None,
        observer = None, quietTimer = None, timeoutTimer = None,
        isLoading = False, isComplete = True, onComplete = Some 1, onTimeout = Some 2\<rparr>,
      \<lparr>now = 800, timers = [], next_tid = 6, calls = [(800, 1)],
        console = [ConsoleLog ''DynamicContentLoader: Content loading complete'']\<rparr>)"
  by (simp add: completed_def evaluate)

lemma timed_out_eq:
  "timed_out =
     (\<lparr>quietPeriod = 500, maxWaitTime = 1000, targetSelector = None,
        observer = None, quietTimer = None, timeoutTimer = None,
        isLoading = True, isComplete = False, onComplete = Some 1, onTimeout = Some 2\<rparr>,
      \<lparr>now = 1000, timers = [], next_tid = 5, calls = [(1000, 2)],
        console = [ConsoleWarn ''DynamicContentLoader: Maximum wait time reached'']\<rparr>)"
  by (simp add: timed_out_def evaluate)

text \<open>
  After completion through the quiet path, where \<open>isComplete\<close> is set, all three handlers
  return at their first line: no callback is invoked and nothing changes.
\<close>

theorem quiet_completion_is_final:
  assumes "isComplete l"
  shows "handleComplete (l, e) = (l, e) \<and> handleTimeout (l, e) = (l, e) \<and>
         handleMutation (l, e) = (l, e)"
  using assms by simp

theorem quiet_completion_is_final_witness:
  "handleComplete completed = completed \<and> handleTimeout completed = completed \<and>
   handleMutation completed = completed \<and> calls (snd completed) = [(800, 1)]"
  using quiet_completion_is_final [of "fst completed" "snd completed"]
  by (simp add: completed_eq)

text \<open>
  C3 (idempotent completion). The handlers are reached from the host only: from the two timers
  and from the observer. Take a loader that is not loading and holds no quiet timer, with
  \<open>quietPeriod\<close> and \<open>maxWaitTime\<close> below \<open>2 ^ 31\<close>, start it, and let any mutation
  batches \<open>ms\<close> and any time \<open>h\<close> pass; call the state reached \<open>s\<close>. Then either no
  callback has been invoked yet, or exactly one has, \<open>onComplete\<close> or \<open>onTimeout\<close>, and
  from \<open>s\<close> on no mutation batch and no timer, however late, invokes a callback again:
  after any further batches \<open>ms'\<close> and any further time \<open>h'\<close> the log is the same. This
  holds on the quiet path and on the timeout path alike, since both release the observer and
  both timers before they invoke the callback.
\<close>

theorem idempotent_completion:
  assumes "\<not> isLoading l" "quietTimer l = None" "timers e = []"
    and "quietPeriod l < 2 ^ 31" "maxWaitTime l < 2 ^ 31"
    and "s = advance_to h (run ms (start oc ot d (l, e)))"
  shows "calls (snd s) = calls e \<or>
         (\<exists>t x. calls (snd s) = calls e @ [(t, x)] \<and> (oc = Some x \<or> ot = Some x) \<and>
            (\<forall>ms' h'. calls (snd (advance_to h' (run ms' s))) = calls e @ [(t, x)]))"
proof -
  from reached [OF assms(1-3), of oc ot h ms d]
  have "armed (calls e) oc ot s \<or> settled (calls e) oc ot s" unfolding assms(6) .
  then show ?thesis
  proof
    assume "armed (calls e) oc ot s"
    then have "calls (snd s) = calls e" by (cases s) (simp add: armed_def)
    then show ?thesis ..
  next
    assume st: "settled (calls e) oc ot s"
    then consider "calls (snd s) = calls e"
      | t x where "calls (snd s) = calls e @ [(t, x)]" "oc = Some x \<or> ot = Some x"
      by (auto simp: settled_def)
    then show ?thesis
    proof cases
      case 1
      then show ?thesis ..
    next
      case 2
      have "\<forall>ms' h'. calls (snd (advance_to h' (run ms' s))) = calls e @ [(t, x)]"
        using settled_run [OF st] 2(1) by simp
      with 2 show ?thesis by blast
    qed
  qed
qed

theorem idempotent_completion_witness:
  "calls (snd timed_out) = [(1000, 2)] \<and>
   calls (snd (advance_to 9000 (run [1000, 1100, 1700] timed_out))) = [(1000, 2)] \<and>
   calls (snd completed) = [(800, 1)] \<and>
   calls (snd (advance_to 20000 (run [800, 900, 5000] completed))) = [(800, 1)]"
proof -
  have "calls (snd timed_out) = calls (fresh_env 0) \<or>
         (\<exists>t x. calls (snd timed_out) = calls (fresh_env 0) @ [(t, x)] \<and>
            (Some 1 = Some x \<or> Some 2 = Some x) \<and>
            (\<forall>ms' h'. calls (snd (advance_to h' (run ms' timed_out))) =
                calls (fresh_env 0) @ [(t, x)]))"
    by (rule idempotent_completion [OF _ _ _ _ _ timed_out_def])
       (simp_all add: DynamicContentLoader_def fresh_env_def)
  then have a: "\<forall>ms' h'. calls (snd (advance_to h' (run ms' timed_out))) = [(1000, 2)]"
    by (auto simp: timed_out_eq fresh_env_def)
  have "calls (snd completed) = calls (fresh_env 0) \<or>
         (\<exists>t x. calls (snd completed) = calls (fresh_env 0) @ [(t, x)] \<and>
            (Some 1 = Some x \<or> Some 2 = Some x) \<and>
            (\<forall>ms' h'. calls (snd (advance_to h' (run ms' completed))) =
                calls (fresh_env 0) @ [(t, x)]))"
    by (rule idempotent_completion [OF _ _ _ _ _ completed_def])
       (simp_all add: DynamicContentLoader_def fresh_env_def)
  then have b: "\<forall>ms' h'. calls (snd (advance_to h' (run ms' completed))) = [(800, 1)]"
    by (auto simp: completed_eq fresh_env_def)
  have c: "calls (snd timed_out) = [(1000, 2)]" by (simp add: timed_out_eq)
  have d: "calls (snd completed) = [(800, 1)]" by (simp add: completed_eq)
  from a b c d show ?thesis by blast
qed

text \<open>
  C4 (the timeout path reaches Completed) fails. In the history \<open>timed_out\<close> the timeout has
  run while the loader was observing: the callback has been invoked and the observer and both
  timers are released, but \<open>hasCompleted\<close> is still false and \<open>isRunning\<close> is still true.
  The quiet path of \<open>completed\<close> ends with \<open>hasCompleted\<close> true and \<open>isRunning\<close> false.
\<close>

theorem timeout_path_leaves_flags:
  "calls (snd timed_out) = [(1000, 2)] \<and> timers (snd timed_out) = [] \<and>
   observer (fst timed_out) = None \<and>
   hasCompleted (fst timed_out) = False \<and> isRunning (fst timed_out) = True \<and>
   hasCompleted (fst completed) = True \<and> isRunning (fst completed) = False"
  by (simp add: timed_out_eq completed_eq evaluate)

text \<open>
  C7 as stated fails for a Completed loader: \<open>stop\<close> returns at its guard
  \<open>if (!this.isLoading) return\<close>, so after the quiet path \<open>hasCompleted\<close> stays true.
\<close>

theorem stop_keeps_completed:
  "hasCompleted (fst completed) \<and> \<not> isRunning (fst completed) \<and>
   hasCompleted (fst (stop completed))"
  by (simp add: completed_eq evaluate)

text \<open>
  C7, amended. On a loader whose \<open>isLoading\<close> flag is set, \<open>stop\<close> releases the observer
  and both timers (no pending timer with their handles remains), invokes no callback, and
  leaves \<open>isRunning\<close> and \<open>hasCompleted\<close> false. On a loader whose \<open>isLoading\<close> flag is not
  set, in particular one completed through the quiet path, \<open>stop\<close> changes nothing.
\<close>

theorem stop_returns_to_idle:
  "(isLoading l \<longrightarrow>
      observer (fst (stop (l, e))) = None \<and>
      quietTimer (fst (stop (l, e))) = None \<and>
      timeoutTimer (fst (stop (l, e))) = None \<and>
      (\<forall>x \<in> set (timers (snd (stop (l, e)))).
          x \<in> set (timers e) \<and> Some (tid x) \<noteq> quietTimer l \<and> Some (tid x) \<noteq> timeoutTimer l) \<and>
      calls (snd (stop (l, e))) = calls e \<and>
      \<not> isRunning (fst (stop (l, e))) \<and> \<not> hasCompleted (fst (stop (l, e)))) \<and>
   (\<not> isLoading l \<longrightarrow> stop (l, e) = (l, e))"
  by (auto simp: Let_def clearTimeout_def emit_def isRunning_def hasCompleted_def
           split: option.splits)

theorem stop_returns_to_idle_witness:
  "observer (fst (stop first_start)) = None \<and>
   quietTimer (fst (stop first_start)) = None \<and>
   timeoutTimer (fst (stop first_start)) = None \<and>
   timers (snd first_start) =
     [\<lparr>tid = 1, due = 1000, task = MaxWaitElapsed\<rparr>, \<lparr>tid = 2, due = 500, task = QuietElapsed\<rparr>] \<and>
   timers (snd (stop first_start)) = [] \<and>
   calls (snd (stop first_start)) = [] \<and>
   \<not> isRunning (fst (stop first_start)) \<and> \<not> hasCompleted (fst (stop first_start)) \<and>
   stop completed = completed"
proof -
  have fs: "first_start =
     (\<lparr>quietPeriod = 500, maxWaitTime = 1000, targetSelector = None,
        observer = Some True, quietTimer = Some 2, timeoutTimer = Some 1,
        isLoading = True, isComplete = False, onComplete = Some 1, onTimeout = None\<rparr>,
      \<lparr>now = 0,
        timers = [\<lparr>tid = 1, due = 1000, task = MaxWaitElapsed\<rparr>,
                  \<lparr>tid = 2, due = 500, task = QuietElapsed\<rparr>],
        next_tid = 3, calls = [], console = []\<rparr>)"
    by (simp add: first_start_def evaluate)
  show ?thesis
    using stop_returns_to_idle [of "fst first_start" "snd first_start"]
          stop_returns_to_idle [of "fst completed" "snd completed"]
    by (simp add: fs completed_eq evaluate)
qed

lemma start_while_observing:
  assumes "observing q D t cs oc ot (l, e)"
  shows "observing q D t cs oc ot (start oc' ot' d (l, e))"
  using assms by (simp add: observing_def emit_def)

text \<open>
  C8 (double-start rejection). \<open>start\<close> on a loader that is loading returns the loader
  unchanged (observer, both timer handles, flags and registered callbacks) and the
  environment unchanged but for one warning on the console; it raises nothing. So the pending
  timers keep their due times: when the loader was observing with its timeout due at \<open>D\<close>
  and callbacks \<open>c\<close> and \<open>ot\<close>, and mutations then keep arriving less than \<open>quietPeriod\<close>
  apart until \<open>D\<close> is reached, the one callback invoked is the original one, at \<open>D\<close>.
\<close>

theorem double_start_rejected:
  assumes "isLoading l"
  shows "start oc' ot' d (l, e) =
           (l, e\<lparr>console := console e @ [ConsoleWarn ''DynamicContentLoader is already running'']\<rparr>) \<and>
         (observing q D t cs (Some c) ot (l, e) \<and> spaced q t ms \<and> ms \<noteq> [] \<and> D \<le> last_event t ms
            \<longrightarrow> calls (snd (advance_to h (run ms (start oc' ot' d (l, e))))) =
                  cs @ [(D, terminal c ot)])"
proof
  show "start oc' ot' d (l, e) =
           (l, e\<lparr>console := console e @ [ConsoleWarn ''DynamicContentLoader is already running'']\<rparr>)"
    using assms by (simp add: emit_def)
next
  show "observing q D t cs (Some c) ot (l, e) \<and> spaced q t ms \<and> ms \<noteq> [] \<and> D \<le> last_event t ms
            \<longrightarrow> calls (snd (advance_to h (run ms (start oc' ot' d (l, e))))) =
                  cs @ [(D, terminal c ot)]"
  proof
    assume a: "observing q D t cs (Some c) ot (l, e) \<and> spaced q t ms \<and> ms \<noteq> [] \<and> D \<le> last_event t ms"
    let ?s = "run ms (start oc' ot' d (l, e))"
    from a have "observing q D t cs (Some c) ot (start oc' ot' d (l, e))"
      by (intro start_while_observing) simp
    from run_timeout [OF this, of ms] a
    have rel: "released ?s" and cl: "calls (snd ?s) = cs @ [(D, terminal c ot)]" by simp_all
    obtain l' e' where s: "?s = (l', e')" by (cases ?s)
    show "calls (snd (advance_to h ?s)) = cs @ [(D, terminal c ot)]"
      using advance_released [of l' e' h] rel cl unfolding s by simp
  qed
qed

theorem double_start_rejected_witness:
  "start (Some 3) (Some 4) page_with_body (run [300] first_start) =
     (fst (run [300] first_start),
      (snd (run [300] first_start))\<lparr>console := [ConsoleWarn ''DynamicContentLoader is already running'']\<rparr>) \<and>
   calls (snd (advance_to 5000 (run [700, 1100]
            (start (Some 3) (Some 4) page_with_body (run [300] first_start))))) = [(1000, 1)]"
proof -
  have o: "observing 500 1000 0 [] (Some 1) None first_start"
    unfolding first_start_def
    using start_observing [of "DynamicContentLoader None (Some 1000) None" "fresh_env 0"
            page_with_body "Some 1" None]
    by (simp add: DynamicContentLoader_def fresh_env_def page_with_body_def target_found_def
             del: start.simps)
  have o2: "observing 500 1000 300 [] (Some 1) None (run [300] first_start)"
    using run_observing [OF o, of "[300]"] by simp
  obtain l e where s: "run [300] first_start = (l, e)" by (cases "run [300] first_start")
  have ld: "isLoading l" and co: "console e = []"
    using s by (auto simp: first_start_def DynamicContentLoader_def fresh_env_def
         page_with_body_def target_found_def setTimeout_def clearTimeout_def due_timers_def
         advance_to.simps Let_def)
  note th = double_start_rejected [OF ld, of "Some 3" "Some 4" page_with_body e 500 1000 300 "[]" 1
                None "[700, 1100]" 5000]
  have A: "start (Some 3) (Some 4) page_with_body (l, e) =
             (fst (l, e),
              (snd (l, e))\<lparr>console := [ConsoleWarn ''DynamicContentLoader is already running'']\<rparr>)"
    using th [THEN conjunct1] co by (simp del: start.simps)
  have B: "calls (snd (advance_to 5000 (run [700, 1100]
             (start (Some 3) (Some 4) page_with_body (l, e))))) = [(1000, 1)]"
    using th [THEN conjunct2] o2 [unfolded s] by (simp add: terminal_def del: start.simps run.simps)
  show ?thesis unfolding s by (rule conjI [OF A B])
qed

text \<open>
  A scope that is not there. When the target element does not exist, \<open>start\<close> completes
  at once: \<open>onComplete\<close> is invoked at the time of the call, no timer stays pending, and
  the loader ends Completed.
\<close>

theorem missing_scope_completes_at_once:
  assumes "\<not> isLoading l" "timers e = []" "\<not> target_found l d"
  shows "calls (snd (start (Some c) ot d (l, e))) = calls e @ [(now e, c)] \<and>
         now (snd (start (Some c) ot d (l, e))) = now e \<and>
         timers (snd (start (Some c) ot d (l, e))) = [] \<and>
         observer (fst (start (Some c) ot d (l, e))) = None \<and>
         hasCompleted (fst (start (Some c) ot d (l, e))) \<and>
         \<not> isRunning (fst (start (Some c) ot d (l, e)))"
  using assms
  by (auto simp: Let_def setTimeout_def clearTimeout_def invoke_def emit_def hasCompleted_def
        isRunning_def target_found_def split: option.splits)

theorem missing_scope_completes_at_once_witness:
  "calls (snd (start (Some 1) (Some 2) page_with_body
      (DynamicContentLoader None None (Some ''#app''), fresh_env 40))) = [(40, 1)] \<and>
   timers (snd (start (Some 1) (Some 2) page_with_body
      (DynamicContentLoader None None (Some ''#app''), fresh_env 40))) = []"
  using missing_scope_completes_at_once [of "DynamicContentLoader None None (Some ''#app'')"
          "fresh_env 40" page_with_body 1 "Some 2"]
  by (simp add: DynamicContentLoader_def fresh_env_def page_with_body_def target_found_def
           del: start.simps)

text \<open>
  \<open>reconfigure\<close> on a loader that is loading changes nothing but the console.
\<close>

theorem reconfigure_rejected_while_loading:
  assumes "isLoading l"
  shows "reconfigure newOptions (l, e) =
           (l, e\<lparr>console := console e @ [ConsoleError ''Cannot reconfigure while loader is running'']\<rparr>)"
  using assms by (simp add: emit_def)

theorem reconfigure_rejected_while_loading_witness:
  "fst (reconfigure \<lparr>opt_quietPeriod = Some 50, opt_maxWaitTime = None, opt_targetSelector = None\<rparr>
          first_start) = fst first_start \<and>
   quietPeriod (fst first_start) = 500"
proof -
  obtain l e where s: "first_start = (l, e)" by (cases first_start)
  have ld: "isLoading l" and q: "quietPeriod l = 500"
    using s by (auto simp: first_start_def evaluate)
  from reconfigure_rejected_while_loading [OF ld, of _ e] q show ?thesis
    unfolding s by (simp del: reconfigure.simps)
qed

section \<open>ChubAdapter: the site pattern\<close>

text \<open>
  The adapter's pattern is the regular expression
  \<^verbatim>\<open>/\/characters\/([\w_\-]+)\/([\w_\-]+)/g\<close>: the literal \<open>/characters/\<close>, a capture
  group around one or more characters of the class, the literal \<open>/\<close>, and a second such
  group. A pattern of this shape is a list of items, and \<open>match_items\<close> is the backtracking
  matcher at one position of the subject: a group is greedy, so it first takes the longest
  run of class characters and gives characters back one by one (\<open>repeat\<close>) while the rest
  of the pattern fails. The result is the list of captures and the unread rest of the subject.

  \<open>search\<close> tries the positions from \<open>i\<close> on, left to right, and \<open>regex_exec\<close> is
  \<open>RegExp.prototype.exec\<close> for a pattern with the global flag: the search starts at
  \<open>lastIndex\<close>; a match sets \<open>lastIndex\<close> to its end, a failure sets it to 0. The second
  component of the result is the new \<open>lastIndex\<close>. \<open>test\<close> is \<open>exec\<close> compared with
  \<open>null\<close>.
\<close>

datatype item = Lit string | Group "char \<Rightarrow> bool"

fun match_items :: "item list \<Rightarrow> string \<Rightarrow> (string list \<times> string) option"
  and repeat :: "item list \<Rightarrow> string \<Rightarrow> nat \<Rightarrow> (string list \<times> string) option" where
  "match_items [] s = Some ([], s)"
| "match_items (Lit l # r) s =
     (if take (length l) s = l then match_items r (drop (length l) s) else None)"
| "match_items (Group P # r) s = repeat r s (length (takeWhile P s))"
| "repeat r s 0 = None"
| "repeat r s (Suc k) =
     (case match_items r (drop (Suc k) s) of
        Some (caps, rest) \<Rightarrow> Some (take (Suc k) s # caps, rest)
      | None \<Rightarrow> repeat r s k)"

fun search :: "item list \<Rightarrow> string \<Rightarrow> nat \<Rightarrow> (string list \<times> nat) option" where
  "search p [] i =
     (case match_items p [] of Some (caps, rest) \<Rightarrow> Some (caps, i) | None \<Rightarrow> None)"
| "search p (c # s) i =
     (case match_items p (c # s) of
        Some (caps, rest) \<Rightarrow> Some (caps, i + (length (c # s) - length rest))
      | None \<Rightarrow> search p s (Suc i))"

definition regex_exec :: "item list \<Rightarrow> string \<Rightarrow> nat \<Rightarrow> string list option \<times> nat" where
  "regex_exec p s lastIndex =
     (if length s < lastIndex then (None, 0)
      else case search p (drop lastIndex s) lastIndex of
             None \<Rightarrow> (None, 0)
           | Some (caps, e) \<Rightarrow> (Some caps, e))"

text \<open>The class \<^verbatim>\<open>[\w_\-]\<close>: a word character, an underscore or a hyphen.\<close>

definition word_char :: "char \<Rightarrow> bool" where
  "word_char c = (c \<in> set (''abcdefghijklmnopqrstuvwxyz'' @ ''ABCDEFGHIJKLMNOPQRSTUVWXYZ'' @
                             ''0123456789'' @ ''_''))"

definition segment_char :: "char \<Rightarrow> bool" where
  "segment_char c = (word_char c \<or> c = CHR ''_'' \<or> c = CHR ''-'')"

definition chub_pattern :: "item list" where
  "chub_pattern = [Lit ''/characters/'', Group segment_char, Lit ''/'', Group segment_char]"

text \<open>
  \<open>location\<close> holds the two fields of \<open>window.location\<close> that the adapter reads. The
  adapter's only state is the \<open>lastIndex\<close> of its pattern, which both methods take and
  return.
\<close>

record location =
  hostname :: string
  pathname :: string

definition ChubAdapter_match :: "location \<Rightarrow> nat \<Rightarrow> bool \<times> nat" where
  "ChubAdapter_match loc lastIndex =
     (if hostname loc = ''chub.ai''
      then (case regex_exec chub_pattern (pathname loc) lastIndex of (r, li) \<Rightarrow> (r \<noteq> None, li))
      else (False, lastIndex))"

definition avatar_url :: "string \<Rightarrow> string \<Rightarrow> string" where
  "avatar_url uid cid =
     ''https://avatars.charhub.io/avatars/'' @ uid @ ''/'' @ cid @ ''/chara_card_v2.png''"

definition getCardImageUrl :: "location \<Rightarrow> nat \<Rightarrow> string option \<times> nat" where
  "getCardImageUrl loc lastIndex =
     (case regex_exec chub_pattern (pathname loc) lastIndex of
        (Some (uid # cid # _), li) \<Rightarrow>
           (if uid \<noteq> [] \<and> cid \<noteq> [] then Some (avatar_url uid cid) else None, li)
      | (_, li) \<Rightarrow> (None, li))"

text \<open>
  What a match of the pattern is, said without the matcher. \<open>card_path_at p i uid cid\<close>:
  at index \<open>i\<close> the path \<open>p\<close> reads \<open>/characters/\<close>, then \<open>uid\<close>, a slash and
  \<open>cid\<close>, where \<open>uid\<close> and \<open>cid\<close> are non-empty runs of class characters and
  \<open>cid\<close> is not followed by another class character (the groups are greedy; \<open>uid\<close>
  ends at the slash). \<open>match_end\<close> is the index just after such a match, and
  \<open>first_card_path p from i uid cid\<close> says that the match at \<open>i\<close> is the leftmost one at
  or after \<open>from\<close>. \<open>shape\<close> is \<open>card_path_at\<close> for a match at the head of a string,
  with the rest of the string named.
\<close>

definition card_path_at :: "string \<Rightarrow> nat \<Rightarrow> string \<Rightarrow> string \<Rightarrow> bool" where
  "card_path_at p i uid cid =
     (uid \<noteq> [] \<and> cid \<noteq> [] \<and> list_all segment_char uid \<and> list_all segment_char cid \<and>
      take (13 + length uid + length cid) (drop i p) = ''/characters/'' @ uid @ ''/'' @ cid \<and>
      (case drop (i + (13 + length uid + length cid)) p of
         [] \<Rightarrow> True
       | x # _ \<Rightarrow> \<not> segment_char x))"

definition match_end :: "nat \<Rightarrow> string \<Rightarrow> string \<Rightarrow> nat" where
  "match_end i uid cid = i + (13 + length uid + length cid)"

definition first_card_path :: "string \<Rightarrow> nat \<Rightarrow> nat \<Rightarrow> string \<Rightarrow> string \<Rightarrow> bool" where
  "first_card_path p from i uid cid =
     (from \<le> i \<and> card_path_at p i uid cid \<and>
      \<not> (\<exists>j u c. from \<le> j \<and> j < i \<and> card_path_at p j u c))"

definition shape :: "string \<Rightarrow> string \<Rightarrow> string \<Rightarrow> string \<Rightarrow> bool" where
  "shape t u c rest =
     (u \<noteq> [] \<and> c \<noteq> [] \<and> list_all segment_char u \<and> list_all segment_char c \<and>
      t = ''/characters/'' @ u @ ''/'' @ c @ rest \<and> (rest = [] \<or> \<not> segment_char (hd rest)))"

section \<open>The document\<close>

text \<open>
  \<open>CONFIG\<close> is the configuration object, a map from its keys; a key it does not have reads
  as \<open>undefined\<close>. \<open>js_string\<close> is the conversion to a string that a template literal
  and the \<open>className\<close> setter apply. The button text of the source starts with an emoji,
  which is left out here.
\<close>

definition CONFIG :: "string \<rightharpoonup> string" where
  "CONFIG = [''ccEditorBaseUrl'' \<mapsto> ''https://lenml.github.io/CCEditor/'',
             ''buttonText'' \<mapsto> ''Edit in CCEditor'',
             ''buttonClass'' \<mapsto> ''cceditor-jump-btn'']"

definition js_string :: "string option \<Rightarrow> string" where
  "js_string v = (case v of None \<Rightarrow> ''undefined'' | Some s \<Rightarrow> s)"

text \<open>
  An element has a tag, its class list, the image URL its click handler opens (if it has
  one) and its children; text and style are not modelled. The document is represented by its
  \<open>body\<close> element, and an element inside it is addressed by the path of child indices
  leading to it. \<open>descendants\<close> lists the elements below a node in document order, so
  \<open>querySelector_class c n\<close> is \<open>n.querySelector("." + c)\<close>. \<open>find_main_h3\<close> is
  \<open>querySelector("main h3")\<close>: the first element in document order with tag \<open>h3\<close> and
  an ancestor with tag \<open>main\<close>; \<open>getInsertTarget\<close> returns the path of its parent.
\<close>

datatype node = Node (tag: string) (classes: "string list") (click: "string option") (kids: "node list")

fun descendants :: "node \<Rightarrow> node list" where
  "descendants (Node t cs k ks) = concat (map (\<lambda>c. c # descendants c) ks)"

definition querySelector_class :: "string \<Rightarrow> node \<Rightarrow> node option" where
  "querySelector_class c n = find (\<lambda>d. c \<in> set (classes d)) (descendants n)"

definition createButton :: node where
  "createButton = Node ''button'' [js_string (CONFIG ''buttonClass'')] None []"

fun set_onclick :: "node \<Rightarrow> string \<Rightarrow> node" where
  "set_onclick (Node t cs k ks) u = Node t cs (Some u) ks"

fun appendChild :: "node \<Rightarrow> node \<Rightarrow> node" where
  "appendChild (Node t cs k ks) b = Node t cs k (ks @ [b])"

definition injectButton :: "node \<Rightarrow> string \<Rightarrow> node" where
  "injectButton target imgUrl =
     (if querySelector_class (js_string (CONFIG ''buttonClass'')) target \<noteq> None then target
      else appendChild target (set_onclick createButton imgUrl))"

fun find_main_h3 :: "bool \<Rightarrow> node \<Rightarrow> nat list option"
  and find_in_kids :: "bool \<Rightarrow> node list \<Rightarrow> nat \<Rightarrow> nat list option" where
  "find_main_h3 in_main (Node t cs k ks) =
     (if t = ''h3'' \<and> in_main then Some []
      else find_in_kids (in_main \<or> t = ''main'') ks 0)"
| "find_in_kids in_main [] i = None"
| "find_in_kids in_main (c # cs) i =
     (case find_main_h3 in_main c of
        Some p \<Rightarrow> Some (i # p)
      | None \<Rightarrow> find_in_kids in_main cs (Suc i))"

definition getInsertTarget :: "node \<Rightarrow> nat list option" where
  "getInsertTarget d = (case find_main_h3 False d of None \<Rightarrow> None | Some p \<Rightarrow> Some (butlast p))"

fun node_at :: "nat list \<Rightarrow> node \<Rightarrow> node option" where
  "node_at [] n = Some n"
| "node_at (i # p) n = (if i < length (kids n) then node_at p (kids n ! i) else None)"

fun update_at :: "nat list \<Rightarrow> (node \<Rightarrow> node) \<Rightarrow> node \<Rightarrow> node" where
  "update_at [] f n = f n"
| "update_at (i # p) f n =
     (if i < length (kids n)
      then Node (tag n) (classes n) (click n) ((kids n)[i := update_at p f (kids n ! i)])
      else n)"

definition the_button :: "string \<Rightarrow> node" where
  "the_button u = Node ''button'' [''cceditor-jump-btn''] (Some u) []"

section \<open>CCEditorLauncher\<close>

text \<open>
  \<open>page\<close> is what the launcher reads and writes: the document, the location and the
  adapter's \<open>lastIndex\<close>. \<open>attempt\<close> is the callback that \<open>fire\<close> hands to
  \<open>waitForDom\<close>. The launcher is constructed with the one ChubAdapter, so
  \<open>adapters.find\<close> is one call of its \<open>match\<close>.

  The source's callback reaches the adapter through \<open>this.adapter\<close>, which \<open>fire\<close>
  assigns before its guard. After a \<open>fire\<close> whose \<open>match\<close> fails that field is
  undefined, and a poll left over from an earlier \<open>waitForDom\<close> then throws at
  \<open>getInsertTarget\<close> and changes nothing. Here such a poll runs the ChubAdapter all the
  same: \<open>attempt\<close> allows every step of the source and some more, so what holds for all
  sequences of steps below holds for the source's.

  \<open>waiting\<close> holds the variables that the closures of one \<open>waitForDom\<close> call share:
  \<open>is_done\<close>, whether the interval timer is set, whether the observer is connected; and
  it counts in \<open>attempts\<close> how often the callback has been run. \<open>done_fn\<close> is the function
  \<open>done\<close>, which runs the three clean-up callbacks. \<open>run_cb\<close> returns that function
  when the callback succeeded, as the source does (\<open>return done\<close>); the interval timer and
  the observer ignore what it returns.
\<close>

definition injected :: "node \<Rightarrow> bool" where
  "injected d = (querySelector_class (js_string (CONFIG ''injectClass'')) d \<noteq> None)"

record page =
  doc :: node
  loc :: location
  lastIndex :: nat

definition attempt :: "page \<Rightarrow> bool \<times> page" where
  "attempt w =
     (if injected (doc w) then (False, w)
      else
        let target = getInsertTarget (doc w);
            (imgUrl, li) = getCardImageUrl (loc w) (lastIndex w);
            w1 = w\<lparr>lastIndex := li\<rparr>
        in (case (target, imgUrl) of
              (Some p, Some u) \<Rightarrow> (True, w1\<lparr>doc := update_at p (\<lambda>t. injectButton t u) (doc w1)\<rparr>)
            | _ \<Rightarrow> (False, w1)))"

datatype returned = Undefined | DoneFunction

record waiting =
  is_done :: bool
  timer_set :: bool
  observer_connected :: bool
  world :: page
  attempts :: nat

definition done_fn :: "waiting \<Rightarrow> waiting" where
  "done_fn s = s\<lparr>is_done := True, timer_set := False, observer_connected := False\<rparr>"

definition run_cb :: "(page \<Rightarrow> bool \<times> page) \<Rightarrow> waiting \<Rightarrow> returned \<times> waiting" where
  "run_cb cb s =
     (if is_done s then (Undefined, s)
      else
        let (ok, w) = cb (world s);
            s1 = s\<lparr>world := w, attempts := Suc (attempts s)\<rparr>
        in if ok then (DoneFunction, s1) else (Undefined, s1))"

definition waitForDom :: "(page \<Rightarrow> bool \<times> page) \<Rightarrow> page \<Rightarrow> waiting" where
  "waitForDom cb w =
     snd (run_cb cb \<lparr>is_done = False, timer_set = True, observer_connected = True,
                     world = w, attempts = 0\<rparr>)"

definition interval_tick :: "(page \<Rightarrow> bool \<times> page) \<Rightarrow> waiting \<Rightarrow> waiting" where
  "interval_tick cb s = (if timer_set s then snd (run_cb cb s) else s)"

definition body_mutation :: "(page \<Rightarrow> bool \<times> page) \<Rightarrow> waiting \<Rightarrow> waiting" where
  "body_mutation cb s = (if observer_connected s then snd (run_cb cb s) else s)"

text \<open>The two ways in which the host runs \<open>run_cb\<close> again after \<open>waitForDom\<close> has returned.\<close>

datatype trigger = IntervalTick | BodyMutation

fun wake :: "(page \<Rightarrow> bool \<times> page) \<Rightarrow> trigger \<Rightarrow> waiting \<Rightarrow> waiting" where
  "wake cb IntervalTick s = interval_tick cb s"
| "wake cb BodyMutation s = body_mutation cb s"

definition fire :: "page \<Rightarrow> waiting option \<times> page" where
  "fire w =
     (let (m, li) = ChubAdapter_match (loc w) (lastIndex w);
          w1 = w\<lparr>lastIndex := li\<rparr>
      in if \<not> m then (None, w1)
         else let s = waitForDom attempt w1 in (Some s, world s))"

text \<open>
  What happens to a page over time, as far as the launcher is concerned: the site changes the
  path, a navigation signal leads to \<open>fire\<close>, or the interval timer or the observer of some
  earlier \<open>waitForDom\<close> runs the callback again.
\<close>

datatype step = Navigate string | Fire | Poll

fun exec_step :: "step \<Rightarrow> page \<Rightarrow> page" where
  "exec_step (Navigate path) w = w\<lparr>loc := (loc w)\<lparr>pathname := path\<rparr>\<rparr>"
| "exec_step Fire w = snd (fire w)"
| "exec_step Poll w = snd (attempt w)"

fun exec_steps :: "step list \<Rightarrow> page \<Rightarrow> page" where
  "exec_steps [] w = w"
| "exec_steps (s # ss) w = exec_steps ss (exec_step s w)"

definition inject_at :: "nat list \<Rightarrow> string \<Rightarrow> node \<Rightarrow> node" where
  "inject_at p u d = update_at p (\<lambda>t. injectButton t u) d"

text \<open>Sample pages and locations, used in the concrete statements below.\<close>

definition sample_doc :: node where
  "sample_doc =
     Node ''body'' [] None
       [Node ''nav'' [''top''] None [],
        Node ''main'' [] None
          [Node ''div'' [''header''] None
             [Node ''h3'' [''title''] None [], Node ''span'' [] None []],
           Node ''div'' [''content''] None [Node ''h3'' [] None []]]]"

definition chub_card :: location where
  "chub_card = \<lparr>hostname = ''chub.ai'', pathname = ''/characters/alice/my-card''\<rparr>"

definition chub_nested :: location where
  "chub_nested = \<lparr>hostname = ''chub.ai'', pathname = ''/characters/a/b/characters/c/d''\<rparr>"

definition card_page :: page where
  "card_page = \<lparr>doc = sample_doc, loc = chub_card, lastIndex = 0\<rparr>"

definition card_url :: string where
  "card_url = ''https://avatars.charhub.io/avatars/alice/my-card/chara_card_v2.png''"

definition injected_doc :: node where
  "injected_doc = update_at [1, 0] (\<lambda>t. appendChild t (the_button card_url)) sample_doc"

lemmas launch =
  attempt_def fire_def waitForDom_def run_cb_def interval_tick_def body_mutation_def
  getCardImageUrl_def ChubAdapter_match_def regex_exec_def chub_pattern_def segment_char_def
  word_char_def avatar_url_def getInsertTarget_def injectButton_def querySelector_class_def
  createButton_def CONFIG_def js_string_def injected_def the_button_def Let_def

section \<open>Properties of the adapter\<close>

lemma repeat_SomeD:
  "repeat r s k = Some (caps, rest) \<Longrightarrow>
     \<exists>j caps'. 0 < j \<and> j \<le> k \<and> match_items r (drop j s) = Some (caps', rest) \<and>
                caps = take j s # caps'"
proof (induction k)
  case 0
  then show ?case by simp
next
  case (Suc k)
  show ?case
  proof (cases "match_items r (drop (Suc k) s)")
    case None
    with Suc.prems have "repeat r s k = Some (caps, rest)" by simp
    from Suc.IH [OF this] show ?thesis by (auto intro: le_SucI)
  next
    case (Some a)
    with Suc.prems show ?thesis by (cases a) auto
  qed
qed

lemma lit_SomeD:
  assumes "match_items (Lit l # r) s = Some (caps, rest)"
  shows "\<exists>t. s = l @ t \<and> match_items r t = Some (caps, rest)"
proof -
  from assms have t: "take (length l) s = l" and m: "match_items r (drop (length l) s) = Some (caps, rest)"
    by (simp_all split: if_splits)
  from t have "s = l @ drop (length l) s" by (metis append_take_drop_id)
  with m show ?thesis by blast
qed

lemma slash_not_segment: "\<not> segment_char CHR ''/''"
  by (simp add: segment_char_def word_char_def)

lemma take_drop_exact: "length a = n \<Longrightarrow> take n (a @ r) = a \<and> drop n (a @ r) = r"
  by simp

lemma card_path_at_shape:
  "card_path_at p i u c \<longleftrightarrow> (\<exists>rest. shape (drop i p) u c rest)"
proof
  assume a: "card_path_at p i u c"
  let ?n = "13 + length u + length c"
  obtain rest where rest: "rest = drop ?n (drop i p)" by simp
  have tk: "take ?n (drop i p) = ''/characters/'' @ u @ ''/'' @ c"
    using a by (simp add: card_path_at_def)
  have "take ?n (drop i p) @ rest = drop i p"
    unfolding rest by (rule append_take_drop_id)
  then have d: "drop i p = ''/characters/'' @ u @ ''/'' @ c @ rest"
    unfolding tk by simp
  have "rest = drop (i + ?n) p" unfolding rest by (simp add: add.commute)
  with a have "rest = [] \<or> \<not> segment_char (hd rest)"
    by (auto simp: card_path_at_def split: list.splits)
  with a d have "shape (drop i p) u c rest"
    unfolding shape_def card_path_at_def by blast
  then show "\<exists>rest. shape (drop i p) u c rest" ..
next
  assume "\<exists>rest. shape (drop i p) u c rest"
  then obtain rest where s: "shape (drop i p) u c rest" ..
  let ?n = "13 + length u + length c"
  from s have d: "drop i p = (''/characters/'' @ u @ ''/'' @ c) @ rest" by (simp add: shape_def)
  have n: "length (''/characters/'' @ u @ ''/'' @ c) = ?n" by simp
  have t: "take ?n (drop i p) = ''/characters/'' @ u @ ''/'' @ c"
    unfolding d using take_drop_exact [OF n] by blast
  have "drop ?n (drop i p) = rest"
    unfolding d using take_drop_exact [OF n] by blast
  then have r: "drop (i + ?n) p = rest" by (simp add: add.commute)
  from s t r show "card_path_at p i u c"
    by (auto simp: card_path_at_def shape_def split: list.splits)
qed

lemma last_group:
  "match_items [Group P] s =
     (if takeWhile P s = [] then None else Some ([takeWhile P s], dropWhile P s))"
proof (cases "length (takeWhile P s)")
  case 0
  then show ?thesis by simp
next
  case (Suc k)
  have "take (Suc k) s = takeWhile P s"
    using Suc takeWhile_eq_take [of P s] by simp
  moreover have "drop (Suc k) s = dropWhile P s"
    using Suc dropWhile_eq_drop [of P s] by simp
  moreover from Suc have "takeWhile P s \<noteq> []" by auto
  ultimately show ?thesis using Suc by simp
qed

lemma take_in_run:
  assumes "j \<le> length (takeWhile P s)"
  shows "list_all P (take j s)"
proof -
  have "take j s = take j (take (length (takeWhile P s)) s)" using assms by (simp add: min_def)
  also have "\<dots> = take j (takeWhile P s)" using takeWhile_eq_take [of P s] by simp
  finally have "set (take j s) \<subseteq> set (takeWhile P s)" by (simp add: set_take_subset)
  then show ?thesis by (auto simp: list_all_iff dest: set_takeWhileD)
qed

lemma group_SomeD:
  assumes "match_items (Group P # r) s = Some (caps, rest)"
  shows "\<exists>u t caps'. s = u @ t \<and> u \<noteq> [] \<and> list_all P u \<and>
                      match_items r t = Some (caps', rest) \<and> caps = u # caps'"
proof -
  from assms have "repeat r s (length (takeWhile P s)) = Some (caps, rest)" by simp
  from repeat_SomeD [OF this] obtain j caps' where
    j: "0 < j" "j \<le> length (takeWhile P s)"
    and m: "match_items r (drop j s) = Some (caps', rest)" and c: "caps = take j s # caps'"
    by blast
  have "length (takeWhile P s) \<le> length s" by (rule length_takeWhile_le)
  with j have "take j s \<noteq> []" by auto
  moreover have "list_all P (take j s)" using j(2) by (rule take_in_run)
  ultimately show ?thesis using m c append_take_drop_id [of j s, symmetric] by blast
qed

lemma chub_match_sound:
  assumes "match_items chub_pattern s = Some (caps, rest)"
  shows "\<exists>u c. caps = [u, c] \<and> shape s u c rest"
proof -
  from lit_SomeD [OF assms [unfolded chub_pattern_def]] obtain t1 where
    s: "s = ''/characters/'' @ t1"
    and m1: "match_items [Group segment_char, Lit ''/'', Group segment_char] t1 = Some (caps, rest)"
    by blast
  from group_SomeD [OF m1] obtain u t2 caps2 where
    t1: "t1 = u @ t2" and u: "u \<noteq> []" "list_all segment_char u"
    and m2: "match_items [Lit ''/'', Group segment_char] t2 = Some (caps2, rest)"
    and c1: "caps = u # caps2" by blast
  from lit_SomeD [OF m2] obtain t3 where
    t2: "t2 = ''/'' @ t3" and m3: "match_items [Group segment_char] t3 = Some (caps2, rest)"
    by blast
  from m3 have "(if takeWhile segment_char t3 = [] then None
                 else Some ([takeWhile segment_char t3], dropWhile segment_char t3)) =
                Some (caps2, rest)"
    by (simp only: last_group)
  then have ne: "takeWhile segment_char t3 \<noteq> []"
    and c2: "caps2 = [takeWhile segment_char t3]" and r: "rest = dropWhile segment_char t3"
    by (simp_all split: if_splits)
  let ?c = "takeWhile segment_char t3"
  have "list_all segment_char ?c" by (auto simp: list_all_iff dest: set_takeWhileD)
  moreover have "rest = [] \<or> \<not> segment_char (hd rest)"
    unfolding r by (metis hd_dropWhile)
  moreover have "t3 = ?c @ rest" unfolding r by simp
  ultimately have "shape s u ?c rest"
    using s t1 t2 u ne by (simp add: shape_def)
  with c1 c2 show ?thesis by blast
qed

lemma chub_match_complete:
  assumes "shape s u c rest"
  shows "match_items chub_pattern s = Some ([u, c], rest)"
proof -
  from assms have u: "u \<noteq> []" "list_all segment_char u" and c: "c \<noteq> []" "list_all segment_char c"
    and s: "s = ''/characters/'' @ u @ ''/'' @ c @ rest"
    and r: "rest = [] \<or> \<not> segment_char (hd rest)"
    by (simp_all add: shape_def)
  have twr: "takeWhile segment_char rest = []"
    using r by (cases rest) auto
  have tc: "takeWhile segment_char (c @ rest) = c"
    using c(2) twr by (simp add: takeWhile_append2 list_all_iff)
  have dc: "dropWhile segment_char (c @ rest) = rest"
    using takeWhile_dropWhile_id [of segment_char "c @ rest"] tc by simp
  have g2: "match_items [Group segment_char] (c @ rest) = Some ([c], rest)"
    using c(1) by (simp only: last_group tc dc) simp
  have tu: "takeWhile segment_char (u @ ''/'' @ c @ rest) = u"
    using u(2) slash_not_segment by (simp add: takeWhile_append2 list_all_iff)
  obtain k where k: "length u = Suc k" using u(1) by (cases u) auto
  have l2: "match_items [Lit ''/'', Group segment_char] (''/'' @ c @ rest) = Some ([c], rest)"
    using g2 by simp
  have "match_items [Group segment_char, Lit ''/'', Group segment_char] (u @ ''/'' @ c @ rest)
          = repeat [Lit ''/'', Group segment_char] (u @ ''/'' @ c @ rest) (Suc k)"
    by (simp only: match_items.simps tu k)
  also have "\<dots> = Some ([u, c], rest)"
    using l2 k by (simp del: match_items.simps)
  finally show ?thesis
    unfolding s chub_pattern_def by (simp del: match_items.simps(3))
qed

lemma shape_length: "shape s u c rest \<Longrightarrow> length s - length rest = 13 + length u + length c"
  by (simp add: shape_def)

lemma search_SomeD:
  "search chub_pattern s i = Some (caps, e) \<Longrightarrow>
     \<exists>k u c rest. k \<le> length s \<and> caps = [u, c] \<and> shape (drop k s) u c rest \<and>
        e = match_end (i + k) u c \<and> (\<forall>k' < k. match_items chub_pattern (drop k' s) = None)"
proof (induction s arbitrary: i)
  case Nil
  then show ?case by (simp add: chub_pattern_def)
next
  case (Cons x s)
  show ?case
  proof (cases "match_items chub_pattern (x # s)")
    case None
    with Cons.prems have "search chub_pattern s (Suc i) = Some (caps, e)" by simp
    from Cons.IH [OF this] obtain k u c rest where
      k: "k \<le> length s" "caps = [u, c]" "shape (drop k s) u c rest" "e = match_end (Suc i + k) u c"
      and f: "\<forall>k' < k. match_items chub_pattern (drop k' s) = None" by blast
    have "\<forall>k' < Suc k. match_items chub_pattern (drop k' (x # s)) = None"
    proof (intro allI impI)
      fix k' assume "k' < Suc k"
      then show "match_items chub_pattern (drop k' (x # s)) = None"
        using None f by (cases k') auto
    qed
    with k show ?thesis
      by (intro exI [of _ "Suc k"] exI [of _ u] exI [of _ c] exI [of _ rest])
         (simp add: match_end_def)
  next
    case (Some a)
    obtain caps' rest where a: "a = (caps', rest)" by (cases a)
    from Some Cons.prems have e: "caps = caps'" "e = i + (length (x # s) - length rest)"
      by (simp_all add: a)
    from chub_match_sound [OF Some [unfolded a]] obtain u c where
      uc: "caps' = [u, c]" "shape (x # s) u c rest" by blast
    from shape_length [OF uc(2)] e uc show ?thesis
      by (intro exI [of _ 0] exI [of _ u] exI [of _ c] exI [of _ rest])
         (simp add: match_end_def)
  qed
qed

lemma search_NoneD:
  "search chub_pattern s i = None \<Longrightarrow> k \<le> length s \<Longrightarrow>
     match_items chub_pattern (drop k s) = None"
proof (induction s arbitrary: i k)
  case Nil
  then show ?case by (simp add: chub_pattern_def)
next
  case (Cons x s)
  from Cons.prems(1) have n: "match_items chub_pattern (x # s) = None"
    and r: "search chub_pattern s (Suc i) = None" by (auto split: option.splits)
  show ?case
  proof (cases k)
    case 0
    with n show ?thesis by simp
  next
    case (Suc k')
    with Cons.IH [OF r, of k'] Cons.prems(2) show ?thesis by simp
  qed
qed

lemma exec_first:
  assumes "first_card_path p li i u c"
  shows "regex_exec chub_pattern p li = (Some [u, c], match_end i u c)"
proof -
  from assms have le: "li \<le> i" and at: "card_path_at p i u c"
    and none: "\<not> (\<exists>j u' c'. li \<le> j \<and> j < i \<and> card_path_at p j u' c')"
    by (simp_all add: first_card_path_def)
  from at obtain rest where sh: "shape (drop i p) u c rest"
    by (auto simp: card_path_at_shape)
  then have "drop i p \<noteq> []" by (simp add: shape_def)
  then have ip: "i < length p" by simp
  with le have lp: "li \<le> length p" by simp
  let ?s = "drop li p"
  have di: "drop (i - li) ?s = drop i p" using le by simp
  have mi: "match_items chub_pattern (drop (i - li) ?s) = Some ([u, c], rest)"
    unfolding di using sh by (rule chub_match_complete)
  have il: "i - li \<le> length ?s" using ip le by simp
  show ?thesis
  proof (cases "search chub_pattern ?s li")
    case None
    from search_NoneD [OF None il] mi show ?thesis by simp
  next
    case (Some a)
    obtain caps e where a: "a = (caps, e)" by (cases a)
    from search_SomeD [OF Some [unfolded a]] obtain k u' c' rest' where
      k: "k \<le> length ?s" "caps = [u', c']" "shape (drop k ?s) u' c' rest'"
         "e = match_end (li + k) u' c'"
      and f: "\<forall>k' < k. match_items chub_pattern (drop k' ?s) = None" by blast
    have dk: "drop k ?s = drop (li + k) p" by (simp add: add.commute)
    have "\<not> k < i - li"
    proof
      assume lt: "k < i - li"
      from k(3) have "card_path_at p (li + k) u' c'"
        unfolding dk card_path_at_shape by blast
      moreover have "li \<le> li + k" "li + k < i" using lt by simp_all
      ultimately show False using none by blast
    qed
    moreover have "\<not> i - li < k"
    proof
      assume "i - li < k"
      with f have "match_items chub_pattern (drop (i - li) ?s) = None" by blast
      with mi show False by simp
    qed
    ultimately have keq: "k = i - li" by simp
    then have "li + k = i" using le by simp
    with k(3) dk have "shape (drop i p) u' c' rest'" by simp
    from chub_match_complete [OF this] chub_match_complete [OF sh]
    have "u' = u" "c' = c" by simp_all
    with k \<open>li + k = i\<close> Some a lp show ?thesis by (simp add: regex_exec_def)
  qed
qed

lemma exec_none:
  assumes "\<not> (\<exists>j u c. li \<le> j \<and> card_path_at p j u c)"
  shows "regex_exec chub_pattern p li = (None, 0)"
proof (cases "length p < li")
  case True
  then show ?thesis by (simp add: regex_exec_def)
next
  case False
  show ?thesis
  proof (cases "search chub_pattern (drop li p) li")
    case None
    then show ?thesis by (simp add: regex_exec_def)
  next
    case (Some a)
    obtain caps e where a: "a = (caps, e)" by (cases a)
    from search_SomeD [OF Some [unfolded a]] obtain k u c rest where
      "shape (drop k (drop li p)) u c rest" by blast
    then have "card_path_at p (li + k) u c"
      unfolding card_path_at_shape by (auto simp: add.commute)
    with assms show ?thesis by (meson le_add1)
  qed
qed

lemma exec_Some_first:
  assumes "regex_exec chub_pattern p li = (Some caps, e)"
  shows "\<exists>i u c. caps = [u, c] \<and> first_card_path p li i u c \<and> e = match_end i u c"
proof -
  from assms have lp: "li \<le> length p"
    and s: "search chub_pattern (drop li p) li = Some (caps, e)"
    by (auto simp: regex_exec_def split: if_splits option.splits)
  from search_SomeD [OF s] obtain k u c rest where
    k: "caps = [u, c]" "shape (drop k (drop li p)) u c rest" "e = match_end (li + k) u c"
    and f: "\<forall>k' < k. match_items chub_pattern (drop k' (drop li p)) = None" by blast
  have at: "card_path_at p (li + k) u c"
    using k(2) unfolding card_path_at_shape by (auto simp: add.commute)
  have "\<not> (\<exists>j u' c'. li \<le> j \<and> j < li + k \<and> card_path_at p j u' c')"
  proof
    assume "\<exists>j u' c'. li \<le> j \<and> j < li + k \<and> card_path_at p j u' c'"
    then obtain j u' c' where j: "li \<le> j" "j < li + k" "card_path_at p j u' c'" by blast
    from j(3) obtain rest' where "shape (drop j p) u' c' rest'" by (auto simp: card_path_at_shape)
    then have "shape (drop (j - li) (drop li p)) u' c' rest'" using j(1) by simp
    then have "match_items chub_pattern (drop (j - li) (drop li p)) = Some ([u', c'], rest')"
      by (rule chub_match_complete)
    moreover have "j - li < k" using j(1,2) by arith
    with f have "match_items chub_pattern (drop (j - li) (drop li p)) = None" by blast
    ultimately show False by (simp only: option.distinct)
  qed
  with at have "first_card_path p li (li + k) u c" by (simp add: first_card_path_def)
  with k(1,3) show ?thesis by blast
qed

lemma card_path_at_end:
  "card_path_at p i u c \<Longrightarrow> match_end i u c \<le> length p"
proof -
  assume "card_path_at p i u c"
  then have "length (take (13 + length u + length c) (drop i p)) = 13 + length u + length c"
    by (simp add: card_path_at_def)
  then show ?thesis by (simp add: match_end_def)
qed

lemma match_nested: "ChubAdapter_match chub_nested 0 = (True, 15)"
  by (simp add: chub_nested_def launch)

lemma match_card: "ChubAdapter_match chub_card 0 = (True, 25)"
  by (simp add: chub_card_def launch)

lemma url_card_25: "getCardImageUrl chub_card 25 = (None, 0)"
  by (simp add: chub_card_def launch)

lemma url_card_0: "getCardImageUrl chub_card 0 = (Some card_url, 25)"
  by (simp add: chub_card_def card_url_def launch)

text \<open>
  C10 as stated fails for a path in which the pattern matches twice: after \<open>match\<close> has
  found the first match, \<open>getCardImageUrl\<close> finds the second one and returns its URL, not
  \<open>null\<close>.
\<close>

theorem chub_nested_second_call:
  "ChubAdapter_match chub_nested 0 = (True, 15) \<and>
   getCardImageUrl chub_nested 15 =
     (Some ''https://avatars.charhub.io/avatars/c/d/chara_card_v2.png'', 30)"
  by (simp add: chub_nested_def launch)

text \<open>
  C10, amended. Whatever the path and the \<open>lastIndex\<close> before: when \<open>match\<close> returns true,
  it has found the leftmost match at or after \<open>lastIndex\<close> and has moved \<open>lastIndex\<close>
  to the end of that match. When the path has no further match from there on, the call of
  \<open>getCardImageUrl\<close> that follows returns \<open>null\<close> and resets \<open>lastIndex\<close> to 0, and the
  next call returns the avatar URL built from the two captures of the leftmost match of the
  whole path, leaving \<open>lastIndex\<close> at its end. When the path has a further match, the call
  that follows \<open>match\<close> returns the avatar URL built from the leftmost such match, not
  \<open>null\<close>, and moves \<open>lastIndex\<close> to its end.
\<close>

theorem chub_pattern_stateful:
  assumes "ChubAdapter_match site li = (True, li1)"
  shows "(\<exists>i uid cid. first_card_path (pathname site) li i uid cid \<and> li1 = match_end i uid cid) \<and>
         (\<not> (\<exists>j u c. li1 \<le> j \<and> card_path_at (pathname site) j u c) \<longrightarrow>
            getCardImageUrl site li1 = (None, 0) \<and>
            (\<exists>i uid cid. first_card_path (pathname site) 0 i uid cid \<and>
               getCardImageUrl site 0 = (Some (avatar_url uid cid), match_end i uid cid))) \<and>
         (\<forall>i uid cid. first_card_path (pathname site) li1 i uid cid \<longrightarrow>
            getCardImageUrl site li1 = (Some (avatar_url uid cid), match_end i uid cid))"
proof (intro conjI impI allI)
  let ?p = "pathname site"
  from assms obtain caps where ex: "regex_exec chub_pattern ?p li = (Some caps, li1)"
    by (auto simp: ChubAdapter_match_def split: if_splits prod.splits)
  from exec_Some_first [OF ex] obtain i u c where
    first: "first_card_path ?p li i u c" and e: "li1 = match_end i u c" by blast
  then show "\<exists>i uid cid. first_card_path ?p li i uid cid \<and> li1 = match_end i uid cid" by blast
  {
    assume nf: "\<not> (\<exists>j u c. li1 \<le> j \<and> card_path_at ?p j u c)"
    from exec_none [OF nf] show "getCardImageUrl site li1 = (None, 0)"
      by (simp add: getCardImageUrl_def)
    have "regex_exec chub_pattern ?p 0 \<noteq> (None, 0)"
    proof
      assume z: "regex_exec chub_pattern ?p 0 = (None, 0)"
      then have "search chub_pattern ?p 0 = None"
        by (auto simp: regex_exec_def split: option.splits)
      from first have "card_path_at ?p i u c" by (simp add: first_card_path_def)
      then obtain rest where sh: "shape (drop i ?p) u c rest" by (auto simp: card_path_at_shape)
      then have "drop i ?p \<noteq> []" by (simp add: shape_def)
      then have "i \<le> length ?p" by simp
      from search_NoneD [OF \<open>search chub_pattern ?p 0 = None\<close> this]
        chub_match_complete [OF sh]
      show False by (simp only: option.distinct)
    qed
    then obtain caps0 e0 where z: "regex_exec chub_pattern ?p 0 = (Some caps0, e0)"
      by (cases "regex_exec chub_pattern ?p 0") (auto simp: regex_exec_def split: option.splits if_splits)
    from exec_Some_first [OF z] obtain i0 u0 c0 where
      f0: "caps0 = [u0, c0]" "first_card_path ?p 0 i0 u0 c0" "e0 = match_end i0 u0 c0" by blast
    from f0(2) have "u0 \<noteq> []" "c0 \<noteq> []"
      by (simp_all add: first_card_path_def card_path_at_def)
    with z f0 have "getCardImageUrl site 0 = (Some (avatar_url u0 c0), match_end i0 u0 c0)"
      by (simp add: getCardImageUrl_def)
    with f0(2) show "\<exists>i uid cid. first_card_path ?p 0 i uid cid \<and>
               getCardImageUrl site 0 = (Some (avatar_url uid cid), match_end i uid cid)" by blast
  }
  fix i2 u2 c2
  assume f2: "first_card_path ?p li1 i2 u2 c2"
  then have "u2 \<noteq> []" "c2 \<noteq> []" by (simp_all add: first_card_path_def card_path_at_def)
  with exec_first [OF f2] show "getCardImageUrl site li1 = (Some (avatar_url u2 c2), match_end i2 u2 c2)"
    by (simp add: getCardImageUrl_def)
qed

theorem chub_pattern_stateful_witness:
  "ChubAdapter_match chub_card 0 = (True, 25) \<and>
   first_card_path (pathname chub_card) 0 0 ''alice'' ''my-card'' \<and>
   match_end 0 ''alice'' ''my-card'' = 25 \<and>
   getCardImageUrl chub_card 25 = (None, 0) \<and>
   getCardImageUrl chub_card 0 = (Some card_url, 25) \<and>
   ChubAdapter_match chub_nested 0 = (True, 15) \<and>
   first_card_path (pathname chub_nested) 15 15 ''c'' ''d'' \<and>
   getCardImageUrl chub_nested 15 = (Some (avatar_url ''c'' ''d''), 30)"
proof -
  have f0: "first_card_path (pathname chub_card) 0 0 ''alice'' ''my-card''"
    by (simp add: first_card_path_def card_path_at_def chub_card_def segment_char_def word_char_def)
  have me: "match_end 0 ''alice'' ''my-card'' = 25" by (simp add: match_end_def)
  have nf: "\<not> (\<exists>j u c. 25 \<le> j \<and> card_path_at (pathname chub_card) j u c)"
  proof
    assume "\<exists>j u c. 25 \<le> j \<and> card_path_at (pathname chub_card) j u c"
    then obtain j u c where j: "25 \<le> j" "card_path_at (pathname chub_card) j u c" by blast
    from card_path_at_end [OF j(2)] have "match_end j u c \<le> 25" by (simp add: chub_card_def)
    with j(1) show False by (simp add: match_end_def)
  qed
  from chub_pattern_stateful [OF match_card] nf
  have n: "getCardImageUrl chub_card 25 = (None, 0)" by blast
  have f1: "first_card_path (pathname chub_nested) 15 15 ''c'' ''d''"
    by (simp add: first_card_path_def card_path_at_def chub_nested_def segment_char_def
          word_char_def)
  from chub_pattern_stateful [OF match_nested] f1
  have "getCardImageUrl chub_nested 15 = (Some (avatar_url ''c'' ''d''), match_end 15 ''c'' ''d'')"
    by blast
  then have u: "getCardImageUrl chub_nested 15 = (Some (avatar_url ''c'' ''d''), 30)"
    by (simp add: match_end_def)
  from match_card f0 me n url_card_0 match_nested f1 u show ?thesis by blast
qed

section \<open>Properties of the launcher\<close>

lemma the_button_eq: "set_onclick createButton u = the_button u"
  by (simp add: createButton_def the_button_def CONFIG_def js_string_def)

lemma descendants_appendChild:
  "descendants (appendChild t b) = descendants t @ b # descendants b"
  by (cases t) simp

lemma injectButton_cases:
  "injectButton t u = (if querySelector_class ''cceditor-jump-btn'' t \<noteq> None then t
                       else appendChild t (the_button u))"
  by (simp add: injectButton_def the_button_eq CONFIG_def js_string_def)

lemma inject_class_eq: "js_string (CONFIG ''injectClass'') = ''undefined''"
  by (simp add: CONFIG_def js_string_def)

lemma has_button_after: "querySelector_class ''cceditor-jump-btn'' (injectButton t u) \<noteq> None"
  by (auto simp: injectButton_cases querySelector_class_def descendants_appendChild the_button_def
        find_None_iff)

lemma injectButton_idem: "injectButton (injectButton t u) u' = injectButton t u"
  using has_button_after [of t u] by (simp add: injectButton_cases [of "injectButton t u"])

lemma update_at_comp: "update_at p g (update_at p f n) = update_at p (g \<circ> f) n"
  by (induction p arbitrary: n) auto

lemma update_at_cong:
  "(\<And>t. node_at p n = Some t \<Longrightarrow> f t = g t) \<Longrightarrow> update_at p f n = update_at p g n"
  by (induction p arbitrary: n) auto

lemma update_at_id: "update_at p (\<lambda>t. t) n = n"
  by (induction p arbitrary: n) (auto simp: list_update_same_conv)

lemma find_in_kids_append:
  "find_main_h3 b c = None \<Longrightarrow> find_in_kids b (ks @ [c]) i = find_in_kids b ks i"
  by (induction ks arbitrary: i) (auto split: option.splits)

lemma find_in_kids_update:
  "j < length ks \<Longrightarrow> find_main_h3 b c = find_main_h3 b (ks ! j) \<Longrightarrow>
     find_in_kids b (ks[j := c]) i = find_in_kids b ks i"
proof (induction ks arbitrary: i j)
  case Nil
  then show ?case by simp
next
  case (Cons k ks)
  then show ?case by (cases j) (auto split: option.splits)
qed

lemma find_main_h3_injectButton: "find_main_h3 b (injectButton t u) = find_main_h3 b t"
proof (cases t)
  case (Node tg cs k ks)
  have "find_main_h3 (b \<or> tg = ''main'') (the_button u) = None" by (simp add: the_button_def)
  then show ?thesis
    by (simp add: injectButton_cases Node find_in_kids_append)
qed

lemma find_main_h3_update:
  "find_main_h3 b (update_at p (\<lambda>t. injectButton t u) n) = find_main_h3 b n"
proof (induction p arbitrary: n b)
  case Nil
  show ?case by (simp add: find_main_h3_injectButton)
next
  case (Cons i p)
  show ?case
  proof (cases n)
    case (Node tg cs k ks)
    show ?thesis
      by (simp add: Node find_in_kids_update Cons.IH)
  qed
qed

lemma getInsertTarget_inject_at: "getInsertTarget (inject_at p u d) = getInsertTarget d"
  by (simp add: getInsertTarget_def inject_at_def find_main_h3_update)

lemma inject_at_twice: "inject_at p u' (inject_at p u d) = inject_at p u d"
  by (simp add: inject_at_def update_at_comp comp_def injectButton_idem)

lemma attempt_doc:
  "doc (snd (attempt w)) = doc w \<or>
   (\<exists>p u. getInsertTarget (doc w) = Some p \<and> doc (snd (attempt w)) = inject_at p u (doc w))"
  by (auto simp: attempt_def Let_def inject_at_def split: prod.splits option.splits)

lemma waitForDom_world: "world (waitForDom cb w) = snd (cb w)"
  by (simp add: waitForDom_def run_cb_def Let_def split: prod.splits)

lemma exec_step_doc:
  "doc (exec_step s w) = doc w \<or>
   (\<exists>p u. getInsertTarget (doc w) = Some p \<and> doc (exec_step s w) = inject_at p u (doc w))"
proof (cases s)
  case (Navigate path)
  then show ?thesis by simp
next
  case Fire
  obtain m li where ma: "ChubAdapter_match (loc w) (lastIndex w) = (m, li)"
    by (cases "ChubAdapter_match (loc w) (lastIndex w)")
  show ?thesis
  proof (cases m)
    case False
    then show ?thesis by (simp add: Fire fire_def ma)
  next
    case True
    then have "exec_step s w = snd (attempt (w\<lparr>lastIndex := li\<rparr>))"
      by (simp add: Fire fire_def ma Let_def waitForDom_world)
    with attempt_doc [of "w\<lparr>lastIndex := li\<rparr>"] show ?thesis by simp
  qed
next
  case Poll
  with attempt_doc [of w] show ?thesis by simp
qed

lemma exec_steps_doc:
  "doc (exec_steps ss w) = doc w \<or>
   (\<exists>p u. getInsertTarget (doc w) = Some p \<and> doc (exec_steps ss w) = inject_at p u (doc w))"
proof (induction ss arbitrary: w)
  case Nil
  show ?case by simp
next
  case (Cons s ss)
  let ?w1 = "exec_step s w"
  from exec_step_doc [of s w] show ?case
  proof
    assume same: "doc ?w1 = doc w"
    with Cons.IH [of ?w1] show ?thesis by simp
  next
    assume "\<exists>p u. getInsertTarget (doc w) = Some p \<and> doc ?w1 = inject_at p u (doc w)"
    then obtain p u where p: "getInsertTarget (doc w) = Some p"
      and d1: "doc ?w1 = inject_at p u (doc w)" by blast
    from Cons.IH [of ?w1] show ?thesis
    proof
      assume "doc (exec_steps ss ?w1) = doc ?w1"
      with p d1 show ?thesis by auto
    next
      assume "\<exists>q v. getInsertTarget (doc ?w1) = Some q \<and>
                doc (exec_steps ss ?w1) = inject_at q v (doc ?w1)"
      then obtain q v where q: "getInsertTarget (doc ?w1) = Some q"
        and d2: "doc (exec_steps ss ?w1) = inject_at q v (doc ?w1)" by blast
      from q d1 p have "q = p" by (simp add: getInsertTarget_inject_at)
      with d2 d1 have "doc (exec_steps ss ?w1) = inject_at p u (doc w)"
        by (simp add: inject_at_twice)
      with p show ?thesis by auto
    qed
  qed
qed

lemma inject_at_cases:
  "inject_at p u d = d \<or>
   (\<exists>t. node_at p d = Some t \<and> querySelector_class ''cceditor-jump-btn'' t = None \<and>
        inject_at p u d = update_at p (\<lambda>t. appendChild t (the_button u)) d)"
proof (cases "node_at p d")
  case None
  have "update_at p (\<lambda>t. injectButton t u) d = update_at p (\<lambda>t. t) d"
    by (rule update_at_cong) (simp add: None)
  then show ?thesis by (simp add: inject_at_def update_at_id)
next
  case (Some t)
  show ?thesis
  proof (cases "querySelector_class ''cceditor-jump-btn'' t = None")
    case True
    have "update_at p (\<lambda>t. injectButton t u) d = update_at p (\<lambda>t. appendChild t (the_button u)) d"
      by (rule update_at_cong) (simp add: Some True injectButton_cases)
    with Some True show ?thesis by (simp add: inject_at_def)
  next
    case False
    have "update_at p (\<lambda>t. injectButton t u) d = update_at p (\<lambda>t. t) d"
      by (rule update_at_cong) (simp add: Some False injectButton_cases)
    then show ?thesis by (simp add: inject_at_def update_at_id)
  qed
qed

lemma classes_injectButton: "classes (injectButton t u) = classes t"
  by (cases t) (simp add: injectButton_cases)

lemma classes_update_at:
  "(\<And>t. classes (f t) = classes t) \<Longrightarrow> classes (update_at p f n) = classes n"
  by (induction p arbitrary: n) auto

lemma descendants_kids:
  "set (descendants n) = (\<Union>c \<in> set (kids n). insert c (set (descendants c)))"
  by (cases n) auto

lemma no_class_update_at:
  assumes f: "\<And>t. classes (f t) = classes t"
    and g: "\<And>t. \<forall>x \<in> set (descendants t). c \<notin> set (classes x) \<Longrightarrow>
                 \<forall>x \<in> set (descendants (f t)). c \<notin> set (classes x)"
  shows "\<forall>x \<in> set (descendants n). c \<notin> set (classes x) \<Longrightarrow>
         \<forall>x \<in> set (descendants (update_at p f n)). c \<notin> set (classes x)"
proof (induction p arbitrary: n)
  case Nil
  then show ?case using g by simp
next
  case (Cons i p)
  show ?case
  proof (cases "i < length (kids n)")
    case False
    with Cons.prems show ?thesis by simp
  next
    case True
    let ?k = "update_at p f (kids n ! i)"
    have old: "\<forall>k \<in> set (kids n). c \<notin> set (classes k) \<and> (\<forall>x \<in> set (descendants k). c \<notin> set (classes x))"
      using Cons.prems by (auto simp: descendants_kids [of n])
    have ki: "kids n ! i \<in> set (kids n)" using True by simp
    have new: "c \<notin> set (classes ?k) \<and> (\<forall>x \<in> set (descendants ?k). c \<notin> set (classes x))"
      using old ki Cons.IH [of "kids n ! i"] by (simp add: classes_update_at f)
    have "\<forall>k \<in> set ((kids n)[i := ?k]). c \<notin> set (classes k) \<and> (\<forall>x \<in> set (descendants k). c \<notin> set (classes x))"
      using old new by (auto dest!: set_update_subset_insert [THEN subsetD])
    then show ?thesis using True by auto
  qed
qed

lemma no_undefined_inject_at:
  assumes "\<forall>x \<in> set (descendants d). ''undefined'' \<notin> set (classes x)"
  shows "\<forall>x \<in> set (descendants (inject_at p u d)). ''undefined'' \<notin> set (classes x)"
proof -
  have keep: "\<forall>x \<in> set (descendants (injectButton t u)). ''undefined'' \<notin> set (classes x)"
    if "\<forall>x \<in> set (descendants t). ''undefined'' \<notin> set (classes x)" for t
    using that
    by (auto simp: injectButton_cases descendants_appendChild the_button_def split: if_splits)
  show ?thesis
    unfolding inject_at_def
    using no_class_update_at [where f = "\<lambda>t. injectButton t u" and c = "''undefined''" and n = d
            and p = p] classes_injectButton keep assms
    by blast
qed

lemma injected_iff:
  "injected d \<longleftrightarrow> (\<exists>x \<in> set (descendants d). ''undefined'' \<in> set (classes x))"
  by (auto simp: injected_def inject_class_eq querySelector_class_def find_None_iff)

lemma foldl_injectButton: "foldl injectButton (injectButton t u) us = injectButton t u"
  by (induction us) (simp_all add: injectButton_idem)

lemma foldl_injectButton_cases:
  "foldl injectButton t us = t \<or>
   (querySelector_class ''cceditor-jump-btn'' t = None \<and>
    (\<exists>u. foldl injectButton t us = appendChild t (the_button u)))"
proof (cases us)
  case Nil
  then show ?thesis by simp
next
  case (Cons u us')
  then have "foldl injectButton t us = injectButton t u" by (simp add: foldl_injectButton)
  then show ?thesis by (auto simp: injectButton_cases)
qed

lemma injected_doc_eq:
  "injected_doc =
     Node ''body'' [] None
       [Node ''nav'' [''top''] None [],
        Node ''main'' [] None
          [Node ''div'' [''header''] None
             [Node ''h3'' [''title''] None [], Node ''span'' [] None [],
              Node ''button'' [''cceditor-jump-btn''] (Some card_url) []],
           Node ''div'' [''content''] None [Node ''h3'' [] None []]]]"
  by (simp add: injected_doc_def sample_doc_def the_button_def)

lemma first_injection:
  "exec_steps [Fire, Poll] card_page = \<lparr>doc = injected_doc, loc = chub_card, lastIndex = 25\<rparr>"
  by (simp add: card_page_def sample_doc_def injected_doc_eq match_card url_card_25 url_card_0
        attempt_def fire_def waitForDom_def run_cb_def getInsertTarget_def injectButton_def
        querySelector_class_def createButton_def CONFIG_def js_string_def injected_def Let_def)

lemma wake_live:
  assumes "\<not> is_done s" "timer_set s" "observer_connected s"
  shows "\<not> is_done (wake cb t s) \<and> timer_set (wake cb t s) \<and> observer_connected (wake cb t s) \<and>
         attempts (wake cb t s) = Suc (attempts s)"
  using assms
  by (cases t) (simp_all add: interval_tick_def body_mutation_def run_cb_def Let_def split: prod.splits)

lemma fold_wake_live:
  assumes "\<not> is_done s" "timer_set s" "observer_connected s"
  shows "\<not> is_done (fold (wake cb) ts s) \<and> timer_set (fold (wake cb) ts s) \<and>
         observer_connected (fold (wake cb) ts s) \<and>
         attempts (fold (wake cb) ts s) = attempts s + length ts"
  using assms
proof (induction ts arbitrary: s)
  case Nil
  then show ?case by simp
next
  case (Cons t ts)
  from wake_live [OF Cons.prems, of cb t] Cons.IH [of "wake cb t s"]
  show ?case by simp
qed

text \<open>
  C5 (retries end on success) fails. \<open>run_cb\<close> returns the function \<open>done\<close> without
  calling it, so nothing ever sets \<open>is_done\<close>, clears the interval or disconnects the
  observer. Whatever the callback returns, also when its first run returns true: after
  \<open>waitForDom\<close> and any sequence \<open>ts\<close> of interval ticks and body mutations the timer is
  still set, the observer still connected, and the callback has been run once by
  \<open>waitForDom\<close> and once more for every element of \<open>ts\<close>.
\<close>

theorem waitForDom_never_stops:
  "\<not> is_done (fold (wake cb) ts (waitForDom cb w)) \<and>
   timer_set (fold (wake cb) ts (waitForDom cb w)) \<and>
   observer_connected (fold (wake cb) ts (waitForDom cb w)) \<and>
   attempts (fold (wake cb) ts (waitForDom cb w)) = Suc (length ts)"
proof -
  have "\<not> is_done (waitForDom cb w) \<and> timer_set (waitForDom cb w) \<and>
        observer_connected (waitForDom cb w) \<and> attempts (waitForDom cb w) = 1"
    by (simp add: waitForDom_def run_cb_def Let_def split: prod.splits)
  with fold_wake_live [of "waitForDom cb w" cb ts] show ?thesis by simp
qed

text \<open>
  C6 (injection at most once). Over any sequence of path changes, \<open>fire\<close> calls and poll
  attempts, the document either stays as it was, or it is the original document with exactly
  one button of class \<open>cceditor-jump-btn\<close> appended to the insertion target, which held no
  such button before. When the target holds such a button at the outset, the document never
  changes. The same holds for any one element: calling \<open>injectButton\<close> on it any number
  of times appends at most one button, and a call on an element that holds a button returns it
  unchanged.
\<close>

theorem injection_at_most_once:
  "(doc (exec_steps ss w) = doc w \<or>
    (\<exists>p t u. getInsertTarget (doc w) = Some p \<and> node_at p (doc w) = Some t \<and>
       querySelector_class ''cceditor-jump-btn'' t = None \<and>
       doc (exec_steps ss w) = update_at p (\<lambda>t. appendChild t (the_button u)) (doc w))) \<and>
   (\<forall>p t. getInsertTarget (doc w) = Some p \<and> node_at p (doc w) = Some t \<and>
       querySelector_class ''cceditor-jump-btn'' t \<noteq> None \<longrightarrow> doc (exec_steps ss w) = doc w) \<and>
   (foldl injectButton target urls = target \<or>
    (querySelector_class ''cceditor-jump-btn'' target = None \<and>
     (\<exists>u. foldl injectButton target urls = appendChild target (the_button u)))) \<and>
   (querySelector_class ''cceditor-jump-btn'' target \<noteq> None \<longrightarrow>
      injectButton target url = target)"
proof -
  have first: "doc (exec_steps ss w) = doc w \<or>
    (\<exists>p t u. getInsertTarget (doc w) = Some p \<and> node_at p (doc w) = Some t \<and>
       querySelector_class ''cceditor-jump-btn'' t = None \<and>
       doc (exec_steps ss w) = update_at p (\<lambda>t. appendChild t (the_button u)) (doc w))"
    using exec_steps_doc [of ss w] inject_at_cases by metis
  have second: "\<forall>p t. getInsertTarget (doc w) = Some p \<and> node_at p (doc w) = Some t \<and>
       querySelector_class ''cceditor-jump-btn'' t \<noteq> None \<longrightarrow> doc (exec_steps ss w) = doc w"
    using first by auto
  have fourth: "querySelector_class ''cceditor-jump-btn'' target \<noteq> None \<longrightarrow>
      injectButton target url = target"
    by (simp add: injectButton_cases)
  from first second foldl_injectButton_cases [of target urls] fourth show ?thesis by blast
qed

theorem injection_at_most_once_witness:
  "getInsertTarget (doc card_page) = Some [1, 0] \<and>
   doc (exec_steps [Fire, Poll] card_page) = injected_doc \<and>
   doc (exec_steps [Poll, Poll, Fire, Poll] (exec_steps [Fire, Poll] card_page)) = injected_doc \<and>
   injectButton (Node ''div'' [] None [the_button card_url]) card_url =
     Node ''div'' [] None [the_button card_url]"
proof -
  let ?w = "exec_steps [Fire, Poll] card_page"
  let ?t = "Node ''div'' [''header''] None
             [Node ''h3'' [''title''] None [], Node ''span'' [] None [],
              Node ''button'' [''cceditor-jump-btn''] (Some card_url) []]"
  have w: "?w = \<lparr>doc = injected_doc, loc = chub_card, lastIndex = 25\<rparr>"
    by (rule first_injection)
  have tgt: "getInsertTarget (doc ?w) = Some [1, 0]"
    unfolding w by (simp add: injected_doc_eq getInsertTarget_def)
  have nd: "node_at [1, 0] (doc ?w) = Some ?t"
    unfolding w by (simp add: injected_doc_eq)
  have hb: "querySelector_class ''cceditor-jump-btn'' ?t \<noteq> None"
    by (simp add: querySelector_class_def)
  note th = injection_at_most_once [of "[Poll, Poll, Fire, Poll]" ?w
      "Node ''div'' [] None [the_button card_url]" "[]" card_url]
  have a: "getInsertTarget (doc card_page) = Some [1, 0]"
    by (simp add: card_page_def sample_doc_def getInsertTarget_def)
  have b: "doc ?w = injected_doc" unfolding w by simp
  from th have "doc (exec_steps [Poll, Poll, Fire, Poll] ?w) = doc ?w"
    using tgt nd hb by blast
  with b have c: "doc (exec_steps [Poll, Poll, Fire, Poll] ?w) = injected_doc"
    by (simp only:)
  have "querySelector_class ''cceditor-jump-btn''
          (Node ''div'' [] None [the_button card_url]) \<noteq> None"
    by (simp add: querySelector_class_def the_button_def)
  with th have d: "injectButton (Node ''div'' [] None [the_button card_url]) card_url =
     Node ''div'' [] None [the_button card_url]" by blast
  from a b c d show ?thesis by blast
qed

text \<open>
  C9 (the \<open>injected\<close> getter). \<open>CONFIG\<close> has no key \<open>injectClass\<close>, so the getter asks
  for the class \<open>undefined\<close>. On a page whose body holds no element of that class the getter
  is false after any sequence of steps, also right after a button has been injected, and the
  attempt is what it would be without the guard: only the check inside \<open>injectButton\<close>
  keeps a second button out.
\<close>

theorem injected_getter_never_true:
  assumes "\<forall>x \<in> set (descendants (doc w)). ''undefined'' \<notin> set (classes x)"
  shows "CONFIG ''injectClass'' = None \<and> \<not> injected (doc (exec_steps ss w)) \<and>
         attempt (exec_steps ss w) =
           (let v = exec_steps ss w;
                target = getInsertTarget (doc v);
                (imgUrl, li) = getCardImageUrl (loc v) (lastIndex v);
                v1 = v\<lparr>lastIndex := li\<rparr>
            in (case (target, imgUrl) of
                  (Some p, Some u) \<Rightarrow> (True, v1\<lparr>doc := update_at p (\<lambda>t. injectButton t u) (doc v1)\<rparr>)
                | _ \<Rightarrow> (False, v1)))"
proof -
  have inv: "\<forall>x \<in> set (descendants (doc (exec_steps ss w))). ''undefined'' \<notin> set (classes x)"
    using exec_steps_doc [of ss w] assms no_undefined_inject_at [OF assms] by metis
  then have n: "\<not> injected (doc (exec_steps ss w))" by (simp add: injected_iff)
  have "CONFIG ''injectClass'' = None" by (simp add: CONFIG_def)
  with n show ?thesis by (simp add: attempt_def Let_def split: prod.splits)
qed

theorem injected_getter_never_true_witness:
  "\<not> injected (doc (exec_steps [Fire, Poll] card_page)) \<and>
   doc (exec_steps [Fire, Poll] card_page) = injected_doc \<and>
   querySelector_class ''cceditor-jump-btn'' injected_doc =
     Some (Node ''button'' [''cceditor-jump-btn''] (Some card_url) [])"
  using injected_getter_never_true [of card_page "[Fire, Poll]"] first_injection
  by (simp add: card_page_def sample_doc_def injected_doc_eq querySelector_class_def
           del: exec_steps.simps)

end
